theory Spec2Isabelle
  imports Complex_Main
begin

section \<open>Python values and exceptions\<close>

text \<open>
  A Python \<open>str\<close> is modelled as a \<open>string\<close> whose characters are the code points
  0..255 (one \<open>char\<close> per code point); \<open>Optional[str]\<close> is \<open>string option\<close>.
  Every exception the modelled code can raise is a value of \<open>py_error\<close>;
  \<open>HTTPException n\<close> carries the HTTP status code.
\<close>

datatype py_error = ValueError | KeyError | IndexError | HTTPException nat

section \<open>cache.py: the LRU cache\<close>

subsection \<open>\<open>cachetools.LRUCache\<close>\<close>

text \<open>
  \<open>URLCache\<close> wraps \<open>cachetools.LRUCache(maxsize)\<close> with the default
  \<open>getsizeof\<close> (every item has size 1), so \<open>currsize\<close> is the number of items.
  The items are kept in one list in recency order: the head is the least recently used
  item (the one \<open>popitem\<close> removes), the last element the most recently used one.
\<close>

type_synonym entry = "string \<times> string option"

record lru_cache =
  maxsize :: int
  items :: "entry list"

definition LRUCache :: "int \<Rightarrow> lru_cache" where
  "LRUCache n = \<lparr>maxsize = n, items = []\<rparr>"

definition lru_contains :: "lru_cache \<Rightarrow> string \<Rightarrow> bool" where
  \<comment> \<open>\<open>key in cache\<close>: no effect on the recency order\<close>
  "lru_contains c key = (map_of (items c) key \<noteq> None)"

definition move_to_end :: "string \<Rightarrow> string option \<Rightarrow> entry list \<Rightarrow> entry list" where
  "move_to_end key v es = filter (\<lambda>e. fst e \<noteq> key) es @ [(key, v)]"

definition lru_getitem :: "lru_cache \<Rightarrow> string \<Rightarrow> (py_error + string option) \<times> lru_cache" where
  \<comment> \<open>\<open>cache[key]\<close>: raises KeyError when absent, otherwise marks the key most recently used\<close>
  "lru_getitem c key =
     (case map_of (items c) key of
        None \<Rightarrow> (Inl KeyError, c)
      | Some v \<Rightarrow> (Inr v, c\<lparr>items := move_to_end key v (items c)\<rparr>))"

fun evict_loop :: "int \<Rightarrow> entry list \<Rightarrow> (py_error + unit) \<times> entry list" where
  \<comment> \<open>\<open>while currsize + size > maxsize: self.popitem()\<close>; \<open>popitem\<close> removes the least
      recently used item and raises KeyError on an empty cache\<close>
  "evict_loop m [] = (if 0 + 1 > m then (Inl KeyError, []) else (Inr (), []))"
| "evict_loop m (e # es) =
     (if int (length (e # es)) + 1 > m then evict_loop m es else (Inr (), e # es))"

definition lru_setitem :: "lru_cache \<Rightarrow> string \<Rightarrow> string option \<Rightarrow> (py_error + unit) \<times> lru_cache" where
  \<comment> \<open>\<open>cache[key] = value\<close>: raises ValueError when the item is larger than \<open>maxsize\<close>; evicts
      only for a key that is not in the cache yet\<close>
  "lru_setitem c key v =
     (if 1 > maxsize c then (Inl ValueError, c)
      else if \<not> lru_contains c key then
        (case evict_loop (maxsize c) (items c) of
           (Inl e, es) \<Rightarrow> (Inl e, c\<lparr>items := es\<rparr>)
         | (Inr u, es) \<Rightarrow> (Inr (), c\<lparr>items := move_to_end key v es\<rparr>))
      else (Inr (), c\<lparr>items := move_to_end key v (items c)\<rparr>))"

definition lru_pop :: "lru_cache \<Rightarrow> string \<Rightarrow> lru_cache" where
  \<comment> \<open>\<open>cache.pop(key, None)\<close>: removes the key when present, never raises\<close>
  "lru_pop c key =
     (if lru_contains c key then c\<lparr>items := filter (\<lambda>e. fst e \<noteq> key) (items c)\<rparr> else c)"

definition lru_clear :: "lru_cache \<Rightarrow> lru_cache" where
  "lru_clear c = c\<lparr>items := []\<rparr>"

subsection \<open>\<open>URLCache\<close>\<close>

text \<open>
  The lock serialises the operations; the model is the sequential behaviour of each
  operation. Every operation returns its outcome, \<open>Inl\<close> of the exception it raises or
  \<open>Inr\<close> of its result, together with the cache as the call leaves it.
\<close>

record url_cache =
  cache :: lru_cache
  hits :: int
  misses :: int

definition URLCache :: "int \<Rightarrow> url_cache" where
  "URLCache max_size = \<lparr>cache = LRUCache max_size, hits = 0, misses = 0\<rparr>"

definition URLCache_get :: "url_cache \<Rightarrow> string \<Rightarrow> (py_error + string option) \<times> url_cache" where
  "URLCache_get s key =
     (if lru_contains (cache s) key then
        (case lru_getitem (cache s) key of
           (r, c') \<Rightarrow> (r, s\<lparr>cache := c', hits := hits s + 1\<rparr>))
      else (Inr None, s\<lparr>misses := misses s + 1\<rparr>))"

definition URLCache_set :: "url_cache \<Rightarrow> string \<Rightarrow> string option \<Rightarrow> (py_error + unit) \<times> url_cache" where
  "URLCache_set s key v =
     (case lru_setitem (cache s) key v of (r, c') \<Rightarrow> (r, s\<lparr>cache := c'\<rparr>))"

definition URLCache_invalidate :: "url_cache \<Rightarrow> string \<Rightarrow> (py_error + unit) \<times> url_cache" where
  "URLCache_invalidate s key = (Inr (), s\<lparr>cache := lru_pop (cache s) key\<rparr>)"

definition URLCache_clear :: "url_cache \<Rightarrow> (py_error + unit) \<times> url_cache" where
  "URLCache_clear s = (Inr (), s\<lparr>cache := lru_clear (cache s), hits := 0, misses := 0\<rparr>)"

definition URLCache_size :: "url_cache \<Rightarrow> (py_error + int) \<times> url_cache" where
  "URLCache_size s = (Inr (int (length (items (cache s)))), s)"

record cache_stats =
  stats_size :: int
  stats_max_size :: int
  stats_hits :: int
  stats_misses :: int
  stats_hit_rate :: real

definition URLCache_stats :: "url_cache \<Rightarrow> (py_error + cache_stats) \<times> url_cache" where
  \<comment> \<open>the division is guarded by \<open>total > 0\<close>; the timestamp of the dictionary is left out\<close>
  "URLCache_stats s =
     (let total = hits s + misses s;
          hit_rate = (if total > 0 then real_of_int (hits s) / real_of_int total else 0)
      in (Inr \<lparr>stats_size = int (length (items (cache s))), stats_max_size = maxsize (cache s),
                stats_hits = hits s, stats_misses = misses s, stats_hit_rate = hit_rate\<rparr>, s))"

text \<open>Observations of the cache that do not change it: its keys in recency order and
  the value stored under a key.\<close>

definition keys_of :: "url_cache \<Rightarrow> string list" where
  "keys_of s = map fst (items (cache s))"

definition peek :: "url_cache \<Rightarrow> string \<Rightarrow> string option option" where
  "peek s key = map_of (items (cache s)) key"

text \<open>A sequence of \<open>get\<close>/\<open>set\<close> calls, each on the cache the previous one left.\<close>

datatype cache_op = Get string | Set string "string option"

fun op_key :: "cache_op \<Rightarrow> string" where
  "op_key (Get k) = k"
| "op_key (Set k v) = k"

fun apply_cache_op :: "url_cache \<Rightarrow> cache_op \<Rightarrow> url_cache" where
  "apply_cache_op s (Get k) = snd (URLCache_get s k)"
| "apply_cache_op s (Set k v) = snd (URLCache_set s k v)"

definition run_cache_ops :: "url_cache \<Rightarrow> cache_op list \<Rightarrow> url_cache" where
  "run_cache_ops s ops = foldl apply_cache_op s ops"

definition last_access :: "cache_op list \<Rightarrow> string \<Rightarrow> nat" where
  \<comment> \<open>the number of the last call in \<open>ops\<close> (counted from 1) that names \<open>k\<close>; 0 when none does\<close>
  "last_access ops k =
     (case filter (\<lambda>i. op_key (ops ! i) = k) (rev [0..<length ops]) of
        [] \<Rightarrow> 0
      | i # _ \<Rightarrow> Suc i)"

section \<open>main.py: the store\<close>

text \<open>
  The SQLite tables \<open>urls\<close> and \<open>clicks\<close> as lists of rows in insertion order. The
  timestamp columns filled by \<open>CURRENT_TIMESTAMP\<close> are left out. \<open>statements\<close> counts the
  SQL statements executed so far, so that a theorem can say whether the store was queried.
\<close>

record url_row =
  short_code :: string
  original_url :: string
  click_count :: int
  is_custom :: bool
  expires_at :: "string option"

record click_row =
  click_code :: string
  user_agent :: "string option"
  ip_address :: "string option"
  referrer :: "string option"

record database =
  urls :: "url_row list"
  clicks :: "click_row list"
  statements :: nat

definition executed :: "database \<Rightarrow> database" where
  "executed db = db\<lparr>statements := statements db + 1\<rparr>"

definition select_by_code :: "database \<Rightarrow> string \<Rightarrow> url_row option" where
  "select_by_code db code = find (\<lambda>r. short_code r = code) (urls db)"

definition code_exists :: "database \<Rightarrow> string \<Rightarrow> bool \<times> database" where
  "code_exists db code = (select_by_code db code \<noteq> None, executed db)"

definition NOT_FOUND :: string where
  "NOT_FOUND = ''__NOT_FOUND__''"

definition get_original_url ::
  "string \<Rightarrow> url_cache \<times> database \<Rightarrow> (py_error + string option) \<times> url_cache \<times> database" where
  "get_original_url code st =
     (case URLCache_get (fst st) code of
        (Inl e, c1) \<Rightarrow> (Inl e, c1, snd st)
      | (Inr (Some cached_url), c1) \<Rightarrow>
          (Inr (if cached_url \<noteq> NOT_FOUND then Some cached_url else None), c1, snd st)
      | (Inr None, c1) \<Rightarrow>
          (case select_by_code (snd st) code of
             Some row \<Rightarrow>
               (case URLCache_set c1 code (Some (original_url row)) of
                  (Inl e, c2) \<Rightarrow> (Inl e, c2, executed (snd st))
                | (Inr u, c2) \<Rightarrow> (Inr (Some (original_url row)), c2, executed (snd st)))
           | None \<Rightarrow>
               (case URLCache_set c1 code (Some NOT_FOUND) of
                  (Inl e, c2) \<Rightarrow> (Inl e, c2, executed (snd st))
                | (Inr u, c2) \<Rightarrow> (Inr None, c2, executed (snd st)))))"

fun repeat_get_original_url ::
  "nat \<Rightarrow> string \<Rightarrow> url_cache \<times> database \<Rightarrow>
     (py_error + string option) list \<times> url_cache \<times> database" where
  \<comment> \<open>\<open>n\<close> successive calls of \<open>get_original_url(code)\<close>: their outcomes and the final state\<close>
  "repeat_get_original_url 0 code st = ([], st)"
| "repeat_get_original_url (Suc n) code st =
     (case get_original_url code st of
        (r, st1) \<Rightarrow>
          (case repeat_get_original_url n code st1 of (rs, st2) \<Rightarrow> (r # rs, st2)))"

definition get_existing_code :: "database \<Rightarrow> string \<Rightarrow> string option \<times> database" where
  "get_existing_code db url =
     (map_option short_code (find (\<lambda>r. original_url r = url) (urls db)), executed db)"

definition record_click ::
  "database \<Rightarrow> string \<Rightarrow> string option \<Rightarrow> string option \<Rightarrow> string option \<Rightarrow> database" where
  "record_click db code ua ip ref =
     executed (executed
       (db\<lparr>clicks := clicks db @
              [\<lparr>click_code = code, user_agent = ua, ip_address = ip, referrer = ref\<rparr>],
           urls := map (\<lambda>r. if short_code r = code then r\<lparr>click_count := click_count r + 1\<rparr> else r)
                     (urls db)\<rparr>))"

definition is_expired :: "(string \<Rightarrow> py_error + bool) \<Rightarrow> string option \<Rightarrow> py_error + bool" where
  \<comment> \<open>\<open>past s\<close> stands for \<open>datetime.now() >= datetime.fromisoformat(s)\<close>, which raises
      ValueError on a malformed string\<close>
  "is_expired past e =
     (case e of None \<Rightarrow> Inr False | Some s \<Rightarrow> if s = [] then Inr False else past s)"

section \<open>main.py: the code generator and the validator\<close>

definition SHORT_CODE_LENGTH :: nat where
  "SHORT_CODE_LENGTH = 6"

definition characters :: string where
  \<comment> \<open>\<open>string.ascii_letters + string.digits\<close>\<close>
  "characters = ''abcdefghijklmnopqrstuvwxyzABCDEFGHIJKLMNOPQRSTUVWXYZ0123456789''"

text \<open>
  The random generator is a stream \<open>rng\<close> of indices: \<open>rng i\<close> is the index that the
  \<open>i\<close>-th draw of \<open>random.choices\<close> selects in its population (the library picks
  \<open>floor(random() * len(population))\<close>, an index below the population's length). The position
  in the stream is the generator's state.
\<close>

definition choices :: "string \<Rightarrow> nat \<Rightarrow> (nat \<Rightarrow> nat) \<Rightarrow> nat \<Rightarrow> string" where
  "choices population k rng p = map (\<lambda>j. population ! rng (p + j)) [0..<k]"

partial_function (option) generate_short_code ::
  "(nat \<Rightarrow> nat) \<Rightarrow> nat \<Rightarrow> database \<Rightarrow> (string \<times> nat \<times> database) option" where
  "generate_short_code rng p db =
     (if \<not> fst (code_exists db (choices characters SHORT_CODE_LENGTH rng p))
      then Some (choices characters SHORT_CODE_LENGTH rng p, p + SHORT_CODE_LENGTH,
                 snd (code_exists db (choices characters SHORT_CODE_LENGTH rng p)))
      else generate_short_code rng (p + SHORT_CODE_LENGTH)
             (snd (code_exists db (choices characters SHORT_CODE_LENGTH rng p))))"

definition candidate :: "(nat \<Rightarrow> nat) \<Rightarrow> nat \<Rightarrow> nat \<Rightarrow> string" where
  \<comment> \<open>the code drawn in the \<open>n\<close>-th pass of the loop started at stream position \<open>p\<close>\<close>
  "candidate rng p n = choices characters SHORT_CODE_LENGTH rng (p + SHORT_CODE_LENGTH * n)"

definition char_isalnum :: "char \<Rightarrow> bool" where
  \<comment> \<open>\<open>str.isalnum\<close> on one code point below 256\<close>
  "char_isalnum ch =
     (let n = (of_char ch :: nat) in
        (48 \<le> n \<and> n \<le> 57) \<or> (65 \<le> n \<and> n \<le> 90) \<or> (97 \<le> n \<and> n \<le> 122) \<or>
        n = 170 \<or> (178 \<le> n \<and> n \<le> 179) \<or> n = 181 \<or> (185 \<le> n \<and> n \<le> 186) \<or>
        (188 \<le> n \<and> n \<le> 190) \<or> (192 \<le> n \<and> n \<le> 214) \<or> (216 \<le> n \<and> n \<le> 246) \<or>
        248 \<le> n)"

definition isalnum :: "string \<Rightarrow> bool" where
  "isalnum s = (s \<noteq> [] \<and> list_all char_isalnum s)"

definition char_lower :: "char \<Rightarrow> char" where
  \<comment> \<open>\<open>str.lower\<close> on one code point below 256\<close>
  "char_lower ch =
     (let n = (of_char ch :: nat) in
        if (65 \<le> n \<and> n \<le> 90) \<or> (192 \<le> n \<and> n \<le> 214) \<or> (216 \<le> n \<and> n \<le> 222)
        then char_of (n + 32) else ch)"

definition lower :: "string \<Rightarrow> string" where
  "lower s = map char_lower s"

definition reserved :: "string list" where
  "reserved = [''api'', ''health'', ''shorten'', ''info'', ''analytics'', ''cache'', ''qrcode'']"

definition validate_custom_code :: "string option \<Rightarrow> py_error + string option" where
  "validate_custom_code v =
     (case v of
        None \<Rightarrow> Inr v
      | Some s \<Rightarrow>
          if s \<noteq> [] then
            if length s < 3 \<or> length s > 20 then Inl ValueError
            else if \<not> isalnum s then Inl ValueError
            else if lower s \<in> set reserved then Inl ValueError
            else Inr v
          else Inr v)"

section \<open>main.py: the routes\<close>

text \<open>
  A route returns its outcome (\<open>Inl (HTTPException n)\<close> for an error response) and the
  state it leaves: the cache, the store and, for \<open>shorten_url\<close>, the position in the random
  stream. \<open>shorten_url\<close> returns \<open>None\<close> when the code generator does not return.
\<close>

definition insert_url ::
  "database \<Rightarrow> string \<Rightarrow> string \<Rightarrow> bool \<Rightarrow> string option \<Rightarrow> (py_error + unit) \<times> database" where
  \<comment> \<open>the INSERT of \<open>shorten_url\<close> and its commit; the UNIQUE constraint on \<open>short_code\<close> raises
      IntegrityError, which the route turns into the status 500\<close>
  "insert_url db code url custom expires =
     (if select_by_code db code \<noteq> None then (Inl (HTTPException 500), executed db)
      else (Inr (),
            executed (db\<lparr>urls := urls db @
              [\<lparr>short_code = code, original_url = url, click_count = 0,
                is_custom = custom, expires_at = expires\<rparr>]\<rparr>)))"

definition save_and_invalidate ::
  "string \<Rightarrow> string \<Rightarrow> bool \<Rightarrow> string option \<Rightarrow> url_cache \<times> database \<Rightarrow>
     (py_error + string) \<times> url_cache \<times> database" where
  \<comment> \<open>the end of \<open>shorten_url\<close>, from the INSERT on: save, then \<open>cache.invalidate(short_code)\<close>\<close>
  "save_and_invalidate code url custom expires st =
     (case insert_url (snd st) code url custom expires of
        (Inl e, db1) \<Rightarrow> (Inl e, fst st, db1)
      | (Inr u, db1) \<Rightarrow>
          (case URLCache_invalidate (fst st) code of
             (Inl e, c1) \<Rightarrow> (Inl e, c1, db1)
           | (Inr u, c1) \<Rightarrow> (Inr code, c1, db1)))"

definition shorten_url ::
  "(nat \<Rightarrow> nat) \<Rightarrow> string \<Rightarrow> string option \<Rightarrow> string option \<Rightarrow> url_cache \<times> nat \<times> database \<Rightarrow>
     ((py_error + string) \<times> url_cache \<times> nat \<times> database) option" where
  "shorten_url rng url custom_code expires st =
     (case st of (c, p, db) \<Rightarrow>
        (case get_existing_code db url of
           (Some (x # xs), db1) \<Rightarrow> Some (Inr (x # xs), c, p, db1)
         | (existing, db1) \<Rightarrow>
             (case custom_code of
                Some (y # ys) \<Rightarrow>
                  (case code_exists db1 (y # ys) of
                     (True, db2) \<Rightarrow> Some (Inl (HTTPException 409), c, p, db2)
                   | (False, db2) \<Rightarrow>
                       (case save_and_invalidate (y # ys) url True expires (c, db2) of
                          (r, c1, db3) \<Rightarrow> Some (r, c1, p, db3)))
              | _ \<Rightarrow>
                  (case generate_short_code rng p db1 of
                     None \<Rightarrow> None
                   | Some (code, p1, db2) \<Rightarrow>
                       (case save_and_invalidate code url False expires (c, db2) of
                          (r, c1, db3) \<Rightarrow> Some (r, c1, p1, db3))))))"

definition redirect_url ::
  "(string \<Rightarrow> py_error + bool) \<Rightarrow> string \<Rightarrow> string option \<Rightarrow> string option \<Rightarrow> string option \<Rightarrow>
     url_cache \<times> database \<Rightarrow> (py_error + string) \<times> url_cache \<times> database" where
  \<comment> \<open>the outcome \<open>Inr url\<close> is the 307 redirect to \<open>url\<close>\<close>
  "redirect_url past code ua ip ref st =
     (case select_by_code (snd st) code of
        None \<Rightarrow> (Inl (HTTPException 404), fst st, executed (snd st))
      | Some row \<Rightarrow>
          (case is_expired past (expires_at row) of
             Inl e \<Rightarrow> (Inl e, fst st, executed (snd st))
           | Inr True \<Rightarrow> (Inl (HTTPException 410), fst st, executed (snd st))
           | Inr False \<Rightarrow>
               (Inr (original_url row), fst st, record_click (executed (snd st)) code ua ip ref)))"

definition get_url_info ::
  "string \<Rightarrow> url_cache \<times> database \<Rightarrow> (py_error + string) \<times> url_cache \<times> database" where
  "get_url_info code st =
     (case get_original_url code st of
        (Inl e, st1) \<Rightarrow> (Inl e, st1)
      | (Inr None, st1) \<Rightarrow> (Inl (HTTPException 404), st1)
      | (Inr (Some u), st1) \<Rightarrow>
          (if u = [] then (Inl (HTTPException 404), st1) else (Inr u, st1)))"

definition delete_url ::
  "string \<Rightarrow> url_cache \<times> database \<Rightarrow> (py_error + unit) \<times> url_cache \<times> database" where
  "delete_url code st =
     (case select_by_code (snd st) code of
        None \<Rightarrow> (Inl (HTTPException 404), fst st, executed (snd st))
      | Some row \<Rightarrow>
          (case URLCache_invalidate (fst st) code of
             (r, c1) \<Rightarrow>
               (r, c1,
                executed (executed (executed
                  ((snd st)\<lparr>clicks := filter (\<lambda>k. click_code k \<noteq> code) (clicks (snd st)),
                            urls := filter (\<lambda>r. short_code r \<noteq> code) (urls (snd st))\<rparr>))))))"

section \<open>main.py: the rate limiter\<close>

text \<open>
  \<open>time.time()\<close> is a float; the model reads the clock as a real number and leaves the
  rounding of float arithmetic out. \<open>int(x)\<close> truncates towards zero. The tracker is a
  \<open>defaultdict(list)\<close>: a client never seen has the empty list.
\<close>

record limit_info =
  retry_after :: int
  limit :: int
  window :: int

definition py_int :: "real \<Rightarrow> int" where
  "py_int x = (if 0 \<le> x then \<lfloor>x\<rfloor> else \<lceil>x\<rceil>)"

definition recent_requests :: "int \<Rightarrow> real \<Rightarrow> real list \<Rightarrow> real list" where
  \<comment> \<open>\<open>[req_time for req_time in rate_limit_tracker[ip] if now - req_time < RATE_LIMIT_WINDOW]\<close>\<close>
  "recent_requests RATE_LIMIT_WINDOW now reqs =
     filter (\<lambda>req_time. now - req_time < of_int RATE_LIMIT_WINDOW) reqs"

definition check_rate_limit ::
  "int \<Rightarrow> int \<Rightarrow> real \<Rightarrow> (string \<Rightarrow> real list) \<Rightarrow> string \<Rightarrow>
     (py_error + bool \<times> limit_info option) \<times> (string \<Rightarrow> real list)" where
  "check_rate_limit RATE_LIMIT_REQUESTS RATE_LIMIT_WINDOW now rate_limit_tracker ip =
     (let kept = recent_requests RATE_LIMIT_WINDOW now (rate_limit_tracker ip);
          tracker1 = rate_limit_tracker(ip := kept)
      in if int (length kept) \<ge> RATE_LIMIT_REQUESTS then
           (case kept of
              [] \<Rightarrow> (Inl IndexError, tracker1)
            | oldest_request # _ \<Rightarrow>
                (Inr (False,
                      Some \<lparr>retry_after = py_int (of_int RATE_LIMIT_WINDOW - (now - oldest_request)) + 1,
                            limit = RATE_LIMIT_REQUESTS, window = RATE_LIMIT_WINDOW\<rparr>),
                 tracker1))
         else (Inr (True, None), tracker1(ip := kept @ [now])))"

fun check_rate_limit_at ::
  "int \<Rightarrow> int \<Rightarrow> string \<Rightarrow> real list \<Rightarrow> (string \<Rightarrow> real list) \<Rightarrow>
     (py_error + bool \<times> limit_info option) list \<times> (string \<Rightarrow> real list)" where
  \<comment> \<open>successive checks of one client, at the given clock readings\<close>
  "check_rate_limit_at requests win ip [] tracker = ([], tracker)"
| "check_rate_limit_at requests win ip (now # later) tracker =
     (case check_rate_limit requests win now tracker ip of
        (r, tracker1) \<Rightarrow>
          (case check_rate_limit_at requests win ip later tracker1 of
             (rs, tracker2) \<Rightarrow> (r # rs, tracker2)))"

section \<open>The invariant of the cache\<close>

text \<open>
  After the calls \<open>ops\<close> on a cache of capacity \<open>n\<close>: the keys are distinct, at most \<open>n\<close>, and
  listed in the order of their last access by \<open>get\<close> or \<open>set\<close>.
\<close>

definition lru_inv :: "int \<Rightarrow> cache_op list \<Rightarrow> url_cache \<Rightarrow> bool" where
  "lru_inv n ops s \<longleftrightarrow>
     distinct (keys_of s) \<and> int (length (keys_of s)) \<le> n \<and>
     sorted_wrt (\<lambda>a b. last_access ops a < last_access ops b) (keys_of s) \<and>
     (\<forall>k \<in> set (keys_of s). 0 < last_access ops k)"

section \<open>Example states\<close>

text \<open>Concrete stores and caches at which the theorems below are instantiated.\<close>

definition empty_db :: database where
  "empty_db = \<lparr>urls = [], clicks = [], statements = 0\<rparr>"

definition promo_row :: url_row where
  "promo_row = \<lparr>short_code = ''promo1'', original_url = ''https://example.com/'',
                 click_count = 0, is_custom = True, expires_at = None\<rparr>"

definition promo_db :: database where
  "promo_db = \<lparr>urls = [promo_row], clicks = [], statements = 0\<rparr>"

definition negative_cache :: url_cache where
  \<comment> \<open>the cache after a first lookup of \<open>promo1\<close> while the store is empty\<close>
  "negative_cache = fst (snd (get_original_url ''promo1'' (URLCache 1000, empty_db)))"

definition positive_cache :: url_cache where
  \<comment> \<open>the cache after a first lookup of \<open>promo1\<close> in \<open>promo_db\<close>\<close>
  "positive_cache = fst (snd (get_original_url ''promo1'' (URLCache 1000, promo_db)))"

definition sentinel_row :: url_row where
  "sentinel_row = \<lparr>short_code = ''abc123'', original_url = ''__NOT_FOUND__'',
                 click_count = 0, is_custom = False, expires_at = None\<rparr>"

definition sentinel_db :: database where
  "sentinel_db = \<lparr>urls = [sentinel_row], clicks = [], statements = 0\<rparr>"

definition one_request :: "string \<Rightarrow> real list" where
  \<comment> \<open>a tracker in which the client \<open>10.0.0.1\<close> made one request, at clock reading 0\<close>
  "one_request = (\<lambda>ip. [])(''10.0.0.1'' := [0])"

definition taken_db :: database where
  \<comment> \<open>a store in which the code \<open>aaaaaa\<close> is taken\<close>
  "taken_db = \<lparr>urls = [\<lparr>short_code = ''aaaaaa'', original_url = ''https://example.com/'',
                          click_count = 0, is_custom = False, expires_at = None\<rparr>],
               clicks = [], statements = 0\<rparr>"

definition always_first :: "nat \<Rightarrow> nat" where
  \<comment> \<open>a random stream whose every draw selects index 0: every candidate is \<open>aaaaaa\<close>\<close>
  "always_first i = 0"

definition by_pass :: "nat \<Rightarrow> nat" where
  \<comment> \<open>a random stream whose \<open>n\<close>-th pass draws six times the index \<open>n mod 62\<close>\<close>
  "by_pass i = (i div 6) mod 62"

definition late_free :: "nat \<Rightarrow> nat" where
  \<comment> \<open>a random stream that draws \<open>aaaaaa\<close> in the first 10001 passes and \<open>bbbbbb\<close> afterwards\<close>
  "late_free i = (if i < 6 * 10001 then 0 else 1)"

definition never_past :: "string \<Rightarrow> py_error + bool" where
  \<comment> \<open>a clock at which no expiry date is reached\<close>
  "never_past s = Inr False"

section \<open>Properties of the cache\<close>

lemma evict_loop_ok:
  "1 \<le> m \<Longrightarrow> evict_loop m es = (Inr (), drop (length es + 1 - nat m) es)"
proof (induction es)
  case Nil
  then show ?case by simp
next
  case (Cons e es)
  show ?case
  proof (cases "int (length (e # es)) + 1 > m")
    case True
    then have "length (e # es) + 1 - nat m = Suc (length es + 1 - nat m)"
      using Cons.prems by auto
    with True Cons show ?thesis by simp
  next
    case False
    then have "length (e # es) + 1 - nat m = 0" by auto
    with False show ?thesis by simp
  qed
qed

lemma peek_contains: "lru_contains (cache s) key = (peek s key \<noteq> None)"
  by (simp add: lru_contains_def peek_def)

lemma URLCache_get_hit:
  "peek s key = Some v \<Longrightarrow>
   URLCache_get s key =
     (Inr v, s\<lparr>cache := (cache s)\<lparr>items := move_to_end key v (items (cache s))\<rparr>, hits := hits s + 1\<rparr>)"
  by (simp add: URLCache_get_def lru_contains_def lru_getitem_def peek_def)

lemma URLCache_get_miss:
  "peek s key = None \<Longrightarrow> URLCache_get s key = (Inr None, s\<lparr>misses := misses s + 1\<rparr>)"
  by (simp add: URLCache_get_def lru_contains_def peek_def)

lemma URLCache_set_ok:
  "1 \<le> maxsize (cache s) \<Longrightarrow>
   URLCache_set s key v =
     (Inr (), s\<lparr>cache := (cache s)\<lparr>items := move_to_end key v
        (if peek s key = None
         then drop (length (items (cache s)) + 1 - nat (maxsize (cache s))) (items (cache s))
         else items (cache s))\<rparr>\<rparr>)"
  by (simp add: URLCache_set_def lru_setitem_def lru_contains_def peek_def evict_loop_ok)

lemma URLCache_set_too_large:
  "maxsize (cache s) < 1 \<Longrightarrow> URLCache_set s key v = (Inl ValueError, s)"
  by (simp add: URLCache_set_def lru_setitem_def)

lemma map_of_move_to_end:
  "map_of (move_to_end key v es) k = (if k = key then Some v else map_of es k)"
proof -
  have "map_of (filter (\<lambda>e. fst e \<noteq> key) es) k = (if k = key then None else map_of es k)" for es :: "entry list"
    by (induction es) auto
  then show ?thesis
    by (auto simp: move_to_end_def map_add_def split: option.splits)
qed


lemma peek_None_iff: "peek s key = None \<longleftrightarrow> key \<notin> set (keys_of s)"
  by (simp add: peek_def keys_of_def map_of_eq_None_iff)

lemma keys_move_to_end:
  "map fst (move_to_end key v es) = filter (\<lambda>k. k \<noteq> key) (map fst es) @ [key]"
  by (simp add: move_to_end_def filter_map comp_def)

lemma keys_of_get:
  "keys_of (snd (URLCache_get s key)) =
     (if key \<in> set (keys_of s) then filter (\<lambda>k. k \<noteq> key) (keys_of s) @ [key] else keys_of s)"
proof (cases "peek s key")
  case None
  then show ?thesis
    using peek_None_iff[of s key] by (simp add: URLCache_get_miss keys_of_def)
next
  case (Some v)
  then have "key \<in> set (keys_of s)" using peek_None_iff[of s key] by simp
  then show ?thesis
    using Some by (simp add: URLCache_get_hit keys_of_def keys_move_to_end)
qed

lemma keys_of_set:
  assumes "1 \<le> maxsize (cache s)"
  shows "keys_of (snd (URLCache_set s key v)) =
     filter (\<lambda>k. k \<noteq> key)
       (if key \<in> set (keys_of s) then keys_of s
        else drop (length (keys_of s) + 1 - nat (maxsize (cache s))) (keys_of s)) @ [key]"
  using peek_None_iff[of s key]
  by (simp add: URLCache_set_ok[OF assms] keys_of_def keys_move_to_end drop_map)

lemma maxsize_apply: "maxsize (cache (apply_cache_op s op)) = maxsize (cache s)"
proof (cases op)
  case (Get k)
  then show ?thesis
    by (cases "peek s k") (simp_all add: URLCache_get_hit URLCache_get_miss)
next
  case (Set k v)
  then show ?thesis
    by (cases "1 \<le> maxsize (cache s)") (simp_all add: URLCache_set_ok URLCache_set_too_large)
qed

lemma run_snoc: "run_cache_ops s (ops @ [op]) = apply_cache_op (run_cache_ops s ops) op"
  by (simp add: run_cache_ops_def)

lemma maxsize_run: "maxsize (cache (run_cache_ops s ops)) = maxsize (cache s)"
  by (induction ops rule: rev_induct) (simp_all add: run_snoc maxsize_apply run_cache_ops_def)

lemma last_access_snoc:
  "last_access (ops @ [op]) k = (if op_key op = k then Suc (length ops) else last_access ops k)"
proof -
  have "filter (\<lambda>i. op_key ((ops @ [op]) ! i) = k) (rev [0..<length ops]) =
        filter (\<lambda>i. op_key (ops ! i) = k) (rev [0..<length ops])"
    by (rule filter_cong) (auto simp: nth_append)
  then show ?thesis by (simp add: last_access_def)
qed

lemma last_access_Nil: "last_access [] k = 0"
  by (simp add: last_access_def)

lemma last_access_le: "last_access ops k \<le> length ops"
  by (induction ops rule: rev_induct) (simp_all add: last_access_snoc last_access_Nil)

lemma sorted_wrt_filter_snoc:
  assumes "sorted_wrt (\<lambda>a b. f a < (f b :: nat)) xs" "\<forall>x \<in> set xs. f x \<le> m"
  shows "sorted_wrt (\<lambda>a b. (if a = k then Suc m else f a) < (if b = k then Suc m else f b))
           (filter (\<lambda>x. x \<noteq> k) xs @ [k])"
proof -
  have "sorted_wrt (\<lambda>a b. f a < f b) (filter (\<lambda>x. x \<noteq> k) xs)"
    using assms(1) by (rule sorted_wrt_filter)
  then have "sorted_wrt (\<lambda>a b. (if a = k then Suc m else f a) < (if b = k then Suc m else f b))
           (filter (\<lambda>x. x \<noteq> k) xs)"
    by (rule sorted_wrt_mono_rel[rotated]) auto
  then show ?thesis
    using assms(2) by (auto simp: sorted_wrt_append less_Suc_eq_le)
qed

lemma lru_inv_step:
  assumes inv: "lru_inv n ops s" and n: "maxsize (cache s) = n"
  shows "lru_inv n (ops @ [op]) (apply_cache_op s op)"
proof -
  let ?la = "last_access ops"
  have le: "\<forall>x \<in> set xs. ?la x \<le> length ops" for xs
    by (simp add: last_access_le)
  have la': "last_access (ops @ [op]) = (\<lambda>a. if a = op_key op then Suc (length ops) else ?la a)"
    by (auto simp: last_access_snoc fun_eq_iff)
  have touch: "distinct xs \<Longrightarrow> int (length xs) < n \<or> (op_key op \<in> set xs \<and> int (length xs) \<le> n) \<Longrightarrow>
      sorted_wrt (\<lambda>a b. ?la a < ?la b) xs \<Longrightarrow> \<forall>k \<in> set xs. 0 < ?la k \<Longrightarrow>
      keys_of s' = filter (\<lambda>k. k \<noteq> op_key op) xs @ [op_key op] \<Longrightarrow>
      lru_inv n (ops @ [op]) s'" for xs s'
  proof -
    assume d: "distinct xs" and l: "int (length xs) < n \<or> (op_key op \<in> set xs \<and> int (length xs) \<le> n)"
      and s: "sorted_wrt (\<lambda>a b. ?la a < ?la b) xs" and p: "\<forall>k \<in> set xs. 0 < ?la k"
      and k: "keys_of s' = filter (\<lambda>k. k \<noteq> op_key op) xs @ [op_key op]"
    have len: "int (length (filter (\<lambda>k. k \<noteq> op_key op) xs)) < n"
    proof (cases "op_key op \<in> set xs")
      case True
      then have "length (filter (\<lambda>k. k \<noteq> op_key op) xs) < length xs"
        by (simp add: length_filter_less)
      with l show ?thesis by linarith
    next
      case False
      then have "filter (\<lambda>k. k \<noteq> op_key op) xs = xs" by (auto simp: filter_id_conv)
      with l False show ?thesis by simp
    qed
    show ?thesis
      unfolding lru_inv_def k la'
      using d len p sorted_wrt_filter_snoc[OF s le, of "op_key op"]
      by auto
  qed
  have unchanged: "op_key op \<notin> set (keys_of s) \<Longrightarrow> keys_of s' = keys_of s \<Longrightarrow> lru_inv n (ops @ [op]) s'" for s'
  proof -
    assume a: "op_key op \<notin> set (keys_of s)" and k: "keys_of s' = keys_of s"
    have "sorted_wrt (\<lambda>a b. last_access (ops @ [op]) a < last_access (ops @ [op]) b) (keys_of s)"
      using inv a unfolding lru_inv_def la'
      by (auto intro: sorted_wrt_mono_rel[rotated])
    moreover have "\<forall>k \<in> set (keys_of s). 0 < last_access (ops @ [op]) k"
      using inv unfolding lru_inv_def la' by auto
    ultimately show ?thesis using inv k by (simp add: lru_inv_def)
  qed
  show ?thesis
  proof (cases op)
    case (Get key)
    show ?thesis
    proof (cases "key \<in> set (keys_of s)")
      case True
      show ?thesis
        apply (rule touch[of "keys_of s"])
        using inv True Get by (simp_all add: lru_inv_def keys_of_get)
    next
      case False
      show ?thesis
        apply (rule unchanged)
        using False Get by (simp_all add: keys_of_get)
    qed
  next
    case (Set key v)
    show ?thesis
    proof (cases "1 \<le> n")
      case False
      then have "apply_cache_op s op = s"
        using Set n by (simp add: URLCache_set_too_large)
      moreover have "int (length (keys_of s)) \<le> n" using inv by (simp add: lru_inv_def)
      then have "keys_of s = [] \<and> 0 \<le> n" using False by (cases "keys_of s") auto
      ultimately show ?thesis by (simp add: lru_inv_def)
    next
      case True
      show ?thesis
      proof (cases "key \<in> set (keys_of s)")
        case k: True
        show ?thesis
          apply (rule touch[of "keys_of s"])
          using inv k Set True n by (simp_all add: lru_inv_def keys_of_set)
      next
        case k: False
        let ?xs = "drop (length (keys_of s) + 1 - nat n) (keys_of s)"
        have "int (length ?xs) < n" using inv True by (auto simp: lru_inv_def)
        moreover have "sorted_wrt (\<lambda>a b. ?la a < ?la b) ?xs"
          using inv by (simp add: lru_inv_def)
        moreover have "\<forall>k \<in> set ?xs. 0 < ?la k"
          using inv by (auto simp: lru_inv_def dest: in_set_dropD)
        moreover have "distinct ?xs" using inv by (simp add: lru_inv_def)
        ultimately show ?thesis
          apply (intro touch[of ?xs])
          using k Set True n by (simp_all add: keys_of_set)
      qed
    qed
  qed
qed

lemma lru_inv_run: "0 \<le> n \<Longrightarrow> lru_inv n ops (run_cache_ops (URLCache n) ops)"
proof (induction ops rule: rev_induct)
  case Nil
  then show ?case
    by (simp add: run_cache_ops_def lru_inv_def keys_of_def URLCache_def LRUCache_def)
next
  case (snoc op ops)
  have "maxsize (cache (run_cache_ops (URLCache n) ops)) = n"
    by (simp add: maxsize_run URLCache_def LRUCache_def)
  with snoc show ?case by (simp add: run_snoc lru_inv_step)
qed


lemma filter_neq_id: "k \<notin> set xs \<Longrightarrow> filter (\<lambda>x. x \<noteq> k) xs = xs"
  by (induction xs) auto

lemma keys_of_insert_run:
  assumes "1 \<le> n" "distinct (map fst kvs)"
  shows "keys_of (run_cache_ops (URLCache n) (map (\<lambda>(k, v). Set k v) kvs)) =
         drop (length kvs - nat n) (map fst kvs)"
  using assms(2)
proof (induction kvs rule: rev_induct)
  case Nil
  then show ?case by (simp add: run_cache_ops_def keys_of_def URLCache_def LRUCache_def)
next
  case (snoc kv kvs)
  obtain k v where kv: "kv = (k, v)" by (cases kv)
  let ?s = "run_cache_ops (URLCache n) (map (\<lambda>(k, v). Set k v) kvs)"
  have m: "maxsize (cache ?s) = n" by (simp add: maxsize_run URLCache_def LRUCache_def)
  have ih: "keys_of ?s = drop (length kvs - nat n) (map fst kvs)" using snoc by simp
  have new: "k \<notin> set (map fst kvs)" using snoc.prems kv by simp
  then have new': "k \<notin> set (keys_of ?s)" unfolding ih by (meson in_set_dropD)
  have new'': "k \<notin> set (drop j (keys_of ?s))" for j
    using new' by (meson in_set_dropD)
  have "keys_of (snd (URLCache_set ?s k v)) =
        drop (length (keys_of ?s) + 1 - nat n) (keys_of ?s) @ [k]"
    using new' assms(1) m by (simp add: keys_of_set filter_neq_id[OF new''])
  also have "\<dots> = drop (length (kvs @ [kv]) - nat n) (map fst (kvs @ [kv]))"
  proof -
    have "Suc (length kvs) - (length kvs - nat n + nat n) + (length kvs - nat n) =
          Suc (length kvs) - nat n"
      using assms(1) by arith
    moreover have "Suc 0 - nat n = 0" using assms(1) by arith
    ultimately show ?thesis unfolding ih kv by (simp add: drop_map)
  qed
  finally show ?case by (simp add: run_snoc kv)
qed

text \<open>
  Claim C2. After any sequence of \<open>get\<close>/\<open>set\<close> calls on a cache constructed with a capacity
  \<open>n \<ge> 0\<close>, \<open>size()\<close> is the number of keys and is at most \<open>n\<close>. When a key that is not in
  the cache is set at capacity, exactly the head of the recency order is evicted, and that
  head is the cached key whose last access (by \<open>get\<close> or by \<open>set\<close>) is the oldest. A
  \<open>get\<close> that hits and a \<open>set\<close> of a cached key both move the key to the most recent
  position. In particular, after setting \<open>n + 1\<close> distinct keys on a new cache the first one
  is absent and the others are present.
\<close>

theorem lru_size_bound_and_eviction:
  assumes "0 \<le> n" and "s = run_cache_ops (URLCache n) ops"
  shows "fst (URLCache_size s) = Inr (int (length (keys_of s))) \<and>
    int (length (keys_of s)) \<le> n \<and>
    (1 \<le> n \<and> key \<notin> set (keys_of s) \<and> int (length (keys_of s)) = n \<longrightarrow>
       keys_of (snd (URLCache_set s key v)) = tl (keys_of s) @ [key] \<and>
       (\<forall>k \<in> set (tl (keys_of s)). last_access ops (hd (keys_of s)) < last_access ops k)) \<and>
    (key' \<in> set (keys_of s) \<longrightarrow>
       keys_of (snd (URLCache_get s key')) = filter (\<lambda>k. k \<noteq> key') (keys_of s) @ [key'] \<and>
       keys_of (snd (URLCache_set s key' v')) = filter (\<lambda>k. k \<noteq> key') (keys_of s) @ [key']) \<and>
    (1 \<le> n \<and> distinct (map fst kvs) \<and> int (length kvs) = n + 1 \<longrightarrow>
       keys_of (run_cache_ops (URLCache n) (map (\<lambda>(k, v). Set k v) kvs)) = tl (map fst kvs) \<and>
       fst (hd kvs) \<notin> set (keys_of (run_cache_ops (URLCache n) (map (\<lambda>(k, v). Set k v) kvs))))"
proof -
  have inv: "lru_inv n ops s" using assms by (simp add: lru_inv_run)
  have m: "maxsize (cache s) = n" using assms(2) by (simp add: maxsize_run URLCache_def LRUCache_def)
  have p1: "fst (URLCache_size s) = Inr (int (length (keys_of s)))"
    by (simp add: URLCache_size_def keys_of_def)
  have p2: "int (length (keys_of s)) \<le> n" using inv by (simp add: lru_inv_def)
  have p3: "keys_of (snd (URLCache_set s key v)) = tl (keys_of s) @ [key] \<and>
       (\<forall>k \<in> set (tl (keys_of s)). last_access ops (hd (keys_of s)) < last_access ops k)"
    if h: "1 \<le> n" "key \<notin> set (keys_of s)" "int (length (keys_of s)) = n"
  proof -
    obtain x xs where xs: "keys_of s = x # xs" using h by (cases "keys_of s") auto
    have "length (keys_of s) + 1 - nat n = 1" using h by simp
    then have "keys_of (snd (URLCache_set s key v)) = filter (\<lambda>k. k \<noteq> key) (tl (keys_of s)) @ [key]"
      using h m by (simp add: keys_of_set drop_Suc)
    moreover have "key \<notin> set (tl (keys_of s))" using h xs by simp
    moreover have "sorted_wrt (\<lambda>a b. last_access ops a < last_access ops b) (x # xs)"
      using inv xs by (simp add: lru_inv_def)
    ultimately show ?thesis using xs by (simp add: filter_neq_id)
  qed
  have p5: "keys_of (snd (URLCache_get s key')) = filter (\<lambda>k. k \<noteq> key') (keys_of s) @ [key'] \<and>
       keys_of (snd (URLCache_set s key' v')) = filter (\<lambda>k. k \<noteq> key') (keys_of s) @ [key']"
    if "key' \<in> set (keys_of s)"
  proof -
    have "1 \<le> n" using that p2 by (cases "keys_of s") auto
    then show ?thesis using that m by (simp add: keys_of_get keys_of_set)
  qed
  have p6: "keys_of (run_cache_ops (URLCache n) (map (\<lambda>(k, v). Set k v) kvs)) = tl (map fst kvs) \<and>
       fst (hd kvs) \<notin> set (keys_of (run_cache_ops (URLCache n) (map (\<lambda>(k, v). Set k v) kvs)))"
    if h: "1 \<le> n" "distinct (map fst kvs)" "int (length kvs) = n + 1"
  proof -
    have "length kvs - nat n = 1" using h by linarith
    then have k: "keys_of (run_cache_ops (URLCache n) (map (\<lambda>(k, v). Set k v) kvs)) = tl (map fst kvs)"
      using h by (simp add: keys_of_insert_run drop_Suc)
    obtain kv kvs' where "kvs = kv # kvs'" using h by (cases kvs) auto
    then show ?thesis using h(2) unfolding k by simp
  qed
  show ?thesis using p1 p2 p3 p5 p6 by blast
qed


lemma run_example: "keys_of (run_cache_ops (URLCache 2)
        [Set ''a'' (Some ''x''), Set ''b'' (Some ''y''), Get ''a'']) = [''b'', ''a'']"
  by (simp add: run_cache_ops_def URLCache_def LRUCache_def URLCache_get_def URLCache_set_def
        lru_setitem_def lru_getitem_def lru_contains_def move_to_end_def keys_of_def)

theorem lru_size_bound_and_eviction_witness:
  "(0::int) \<le> 2 \<and>
   keys_of (run_cache_ops (URLCache 2)
        [Set ''a'' (Some ''x''), Set ''b'' (Some ''y''), Get ''a'']) = [''b'', ''a''] \<and>
   keys_of (snd (URLCache_set (run_cache_ops (URLCache 2)
        [Set ''a'' (Some ''x''), Set ''b'' (Some ''y''), Get ''a'']) ''c'' (Some ''z''))) = [''a'', ''c''] \<and>
   last_access [Set ''a'' (Some ''x''), Set ''b'' (Some ''y''), Get ''a''] ''b''
     < last_access [Set ''a'' (Some ''x''), Set ''b'' (Some ''y''), Get ''a''] ''a'' \<and>
   keys_of (snd (URLCache_get (run_cache_ops (URLCache 2)
        [Set ''a'' (Some ''x''), Set ''b'' (Some ''y''), Get ''a'']) ''b'')) = [''a'', ''b''] \<and>
   keys_of (run_cache_ops (URLCache 2)
        (map (\<lambda>(k, v). Set k v) [(''a'', Some ''x''), (''b'', Some ''y''), (''c'', None)])) = [''b'', ''c'']"
  using lru_size_bound_and_eviction [OF _ refl, of 2 "[Set ''a'' (Some ''x''), Set ''b'' (Some ''y''), Get ''a'']"
              "''c''" "Some ''z''" "''b''" "None"
              "[(''a'', Some ''x''), (''b'', Some ''y''), (''c'', None)]"]
  by (simp add: run_example)

section \<open>Properties of the lookup path\<close>

lemma peek_get_hit:
  "peek s key = Some v \<Longrightarrow> peek (snd (URLCache_get s key)) k = (if k = key then Some v else peek s k)"
  by (simp add: URLCache_get_hit) (simp add: peek_def map_of_move_to_end)

lemma peek_set:
  "1 \<le> maxsize (cache s) \<Longrightarrow> peek (snd (URLCache_set s key v)) key = Some v"
  by (simp add: URLCache_set_ok) (simp add: peek_def map_of_move_to_end)

lemma maxsize_get: "maxsize (cache (snd (URLCache_get s key))) = maxsize (cache s)"
  using maxsize_apply[of s "Get key"] by simp

lemma maxsize_set: "maxsize (cache (snd (URLCache_set s key v))) = maxsize (cache s)"
  using maxsize_apply[of s "Set key v"] by simp

lemma URLCache_get_Inr: "fst (URLCache_get s key) = Inr (case peek s key of None \<Rightarrow> None | Some v \<Rightarrow> v)"
  by (cases "peek s key") (simp_all add: URLCache_get_hit URLCache_get_miss)

lemma get_original_url_hit:
  assumes "peek c code = Some (Some u)"
  shows "get_original_url code (c, db) =
           (Inr (if u \<noteq> NOT_FOUND then Some u else None), snd (URLCache_get c code), db)"
  using assms by (simp add: get_original_url_def URLCache_get_hit)

lemma get_original_url_miss_found:
  assumes "peek c code = None" "1 \<le> maxsize (cache c)" "select_by_code db code = Some row"
  shows "get_original_url code (c, db) =
           (Inr (Some (original_url row)),
            snd (URLCache_set (snd (URLCache_get c code)) code (Some (original_url row))), executed db)"
proof -
  have "1 \<le> maxsize (cache (c\<lparr>misses := misses c + 1\<rparr>))" using assms(2) by simp
  then show ?thesis
    using assms(1,3) by (simp add: get_original_url_def URLCache_get_miss URLCache_set_ok)
qed

lemma get_original_url_miss_absent:
  assumes "peek c code = None" "1 \<le> maxsize (cache c)" "select_by_code db code = None"
  shows "get_original_url code (c, db) =
           (Inr None, snd (URLCache_set (snd (URLCache_get c code)) code (Some NOT_FOUND)), executed db)"
proof -
  have "1 \<le> maxsize (cache (c\<lparr>misses := misses c + 1\<rparr>))" using assms(2) by simp
  then show ?thesis
    using assms(1,3) by (simp add: get_original_url_def URLCache_get_miss URLCache_set_ok)
qed

lemma repeat_once_cached:
  assumes "peek c code = Some (Some u)"
  shows "fst (repeat_get_original_url n code (c, db)) =
           replicate n (Inr (if u \<noteq> NOT_FOUND then Some u else None)) \<and>
         snd (snd (repeat_get_original_url n code (c, db))) = db"
  using assms
proof (induction n arbitrary: c)
  case 0
  then show ?case by simp
next
  case (Suc n)
  have "peek (snd (URLCache_get c code)) code = Some (Some u)"
    using Suc.prems by (simp add: peek_get_hit)
  from Suc.IH[OF this] show ?case
    using Suc.prems by (auto simp: get_original_url_hit split: prod.splits)
qed


lemmas eval_defs =
  get_original_url_def URLCache_get_def URLCache_set_def URLCache_invalidate_def
  lru_getitem_def lru_setitem_def lru_contains_def lru_pop_def move_to_end_def
  select_by_code_def executed_def NOT_FOUND_def peek_def URLCache_def LRUCache_def keys_of_def

text \<open>
  Claim C1. \<open>get_original_url\<close> reads the cache first. A hit on the \<open>NOT_FOUND\<close> sentinel
  reports not-found and leaves the store untouched (no statement is executed); a hit on any
  other string returns it and leaves the store untouched. On a miss, with a cache of capacity
  at least 1, exactly one statement is executed, and the cache then holds the URL found or,
  when the code is absent, the sentinel. After that first lookup of an absent code, any
  number \<open>n\<close> of further lookups all report not-found and execute no further statement.
\<close>

theorem resolve_cache_then_store:
  "(peek c1 code = Some (Some NOT_FOUND) \<longrightarrow>
      fst (get_original_url code (c1, db)) = Inr None \<and>
      snd (snd (get_original_url code (c1, db))) = db) \<and>
   (peek c2 code = Some (Some u) \<and> u \<noteq> NOT_FOUND \<longrightarrow>
      fst (get_original_url code (c2, db)) = Inr (Some u) \<and>
      snd (snd (get_original_url code (c2, db))) = db) \<and>
   (peek c3 code = None \<and> 1 \<le> maxsize (cache c3) \<and> select_by_code db3 code = Some row \<longrightarrow>
      fst (get_original_url code (c3, db3)) = Inr (Some (original_url row)) \<and>
      snd (snd (get_original_url code (c3, db3))) = executed db3 \<and>
      peek (fst (snd (get_original_url code (c3, db3)))) code = Some (Some (original_url row))) \<and>
   (peek c4 code = None \<and> 1 \<le> maxsize (cache c4) \<and> select_by_code db4 code = None \<longrightarrow>
      fst (get_original_url code (c4, db4)) = Inr None \<and>
      snd (snd (get_original_url code (c4, db4))) = executed db4 \<and>
      peek (fst (snd (get_original_url code (c4, db4)))) code = Some (Some NOT_FOUND) \<and>
      fst (repeat_get_original_url n code (snd (get_original_url code (c4, db4)))) =
        replicate n (Inr None) \<and>
      snd (snd (repeat_get_original_url n code (snd (get_original_url code (c4, db4))))) =
        executed db4)"
proof -
  have p1: "fst (get_original_url code (c1, db)) = Inr None \<and>
      snd (snd (get_original_url code (c1, db))) = db"
    if "peek c1 code = Some (Some NOT_FOUND)"
    using that by (simp add: get_original_url_hit)
  have p2: "fst (get_original_url code (c2, db)) = Inr (Some u) \<and>
      snd (snd (get_original_url code (c2, db))) = db"
    if "peek c2 code = Some (Some u)" "u \<noteq> NOT_FOUND"
    using that by (simp add: get_original_url_hit)
  have p3: "fst (get_original_url code (c3, db3)) = Inr (Some (original_url row)) \<and>
      snd (snd (get_original_url code (c3, db3))) = executed db3 \<and>
      peek (fst (snd (get_original_url code (c3, db3)))) code = Some (Some (original_url row))"
    if "peek c3 code = None" "1 \<le> maxsize (cache c3)" "select_by_code db3 code = Some row"
    using that by (simp add: get_original_url_miss_found peek_set maxsize_get)
  have p4: "fst (get_original_url code (c4, db4)) = Inr None \<and>
      snd (snd (get_original_url code (c4, db4))) = executed db4 \<and>
      peek (fst (snd (get_original_url code (c4, db4)))) code = Some (Some NOT_FOUND) \<and>
      fst (repeat_get_original_url n code (snd (get_original_url code (c4, db4)))) =
        replicate n (Inr None) \<and>
      snd (snd (repeat_get_original_url n code (snd (get_original_url code (c4, db4))))) =
        executed db4"
    if h: "peek c4 code = None" "1 \<le> maxsize (cache c4)" "select_by_code db4 code = None"
  proof -
    let ?c = "snd (URLCache_set (snd (URLCache_get c4 code)) code (Some NOT_FOUND))"
    have g: "get_original_url code (c4, db4) = (Inr None, ?c, executed db4)"
      using h by (rule get_original_url_miss_absent)
    have pk: "peek ?c code = Some (Some NOT_FOUND)"
      using h(2) by (simp add: peek_set maxsize_get)
    show ?thesis
      using repeat_once_cached[OF pk, of n "executed db4"] pk unfolding g by simp
  qed
  show ?thesis using p1 p2 p3 p4 by blast
qed

lemmas ex_defs = empty_db_def promo_row_def promo_db_def negative_cache_def positive_cache_def

theorem resolve_cache_then_store_witness:
  "peek negative_cache ''promo1'' = Some (Some NOT_FOUND) \<and>
   fst (get_original_url ''promo1'' (negative_cache, promo_db)) = Inr None \<and>
   snd (snd (get_original_url ''promo1'' (negative_cache, promo_db))) = promo_db \<and>
   peek positive_cache ''promo1'' = Some (Some ''https://example.com/'') \<and>
   ''https://example.com/'' \<noteq> NOT_FOUND \<and>
   fst (get_original_url ''promo1'' (positive_cache, promo_db)) = Inr (Some ''https://example.com/'') \<and>
   snd (snd (get_original_url ''promo1'' (positive_cache, promo_db))) = promo_db \<and>
   peek (URLCache 1000) ''promo1'' = None \<and> 1 \<le> maxsize (cache (URLCache 1000)) \<and>
   select_by_code promo_db ''promo1'' = Some promo_row \<and>
   fst (get_original_url ''promo1'' (URLCache 1000, promo_db)) = Inr (Some ''https://example.com/'') \<and>
   statements (snd (snd (get_original_url ''promo1'' (URLCache 1000, promo_db)))) = 1 \<and>
   select_by_code empty_db ''promo1'' = None \<and>
   fst (get_original_url ''promo1'' (URLCache 1000, empty_db)) = Inr None \<and>
   statements (snd (snd (get_original_url ''promo1'' (URLCache 1000, empty_db)))) = 1 \<and>
   fst (repeat_get_original_url 3 ''promo1'' (snd (get_original_url ''promo1'' (URLCache 1000, empty_db)))) =
     [Inr None, Inr None, Inr None] \<and>
   statements (snd (snd (repeat_get_original_url 3 ''promo1''
     (snd (get_original_url ''promo1'' (URLCache 1000, empty_db)))))) = 1"
proof -
  have h1: "peek negative_cache ''promo1'' = Some (Some NOT_FOUND)"
    by (simp add: eval_defs ex_defs)
  have h2: "peek positive_cache ''promo1'' = Some (Some ''https://example.com/'')"
    by (simp add: eval_defs ex_defs)
  have h2': "''https://example.com/'' \<noteq> NOT_FOUND" by (simp add: NOT_FOUND_def)
  have h3: "peek (URLCache 1000) ''promo1'' = None" "1 \<le> maxsize (cache (URLCache 1000))"
    "select_by_code promo_db ''promo1'' = Some promo_row"
    "select_by_code empty_db ''promo1'' = None"
    by (simp_all add: eval_defs ex_defs)
  have e: "statements (executed promo_db) = 1" "statements (executed empty_db) = 1"
    "original_url promo_row = ''https://example.com/''"
    by (simp_all add: executed_def ex_defs)
  show ?thesis
    using resolve_cache_then_store
      [of negative_cache "''promo1''" promo_db positive_cache "''https://example.com/''"
          "URLCache 1000" promo_db promo_row "URLCache 1000" empty_db 3]
      h1 h2 h2' h3 e
    by (simp add: numeral_3_eq_3)
qed


text \<open>
  Claim C10. The sentinel is an ordinary string. For a code whose stored URL is the string
  \<open>__NOT_FOUND__\<close>, the first lookup (a miss, capacity at least 1) returns that URL and
  caches it, and every later lookup of the code reports not-found.
\<close>

theorem sentinel_url_lost_after_first_resolve:
  assumes "peek c code = None" and "1 \<le> maxsize (cache c)"
    and "select_by_code db code = Some row" and "original_url row = NOT_FOUND"
  shows "fst (get_original_url code (c, db)) = Inr (Some NOT_FOUND) \<and>
         peek (fst (snd (get_original_url code (c, db)))) code = Some (Some NOT_FOUND) \<and>
         fst (repeat_get_original_url (Suc n) code (snd (get_original_url code (c, db)))) =
           replicate (Suc n) (Inr None)"
proof -
  let ?c = "snd (URLCache_set (snd (URLCache_get c code)) code (Some (original_url row)))"
  have g: "get_original_url code (c, db) = (Inr (Some (original_url row)), ?c, executed db)"
    using assms(1-3) by (rule get_original_url_miss_found)
  have pk: "peek ?c code = Some (Some NOT_FOUND)"
    using assms(2,4) by (simp add: peek_set maxsize_get)
  show ?thesis
    using repeat_once_cached[OF pk, of "Suc n" "executed db"] pk assms(4) unfolding g
    by simp
qed

theorem sentinel_url_lost_after_first_resolve_witness:
  "peek (URLCache 1000) ''abc123'' = None \<and> 1 \<le> maxsize (cache (URLCache 1000)) \<and>
   select_by_code sentinel_db ''abc123'' = Some sentinel_row \<and>
   original_url sentinel_row = NOT_FOUND \<and>
   fst (get_original_url ''abc123'' (URLCache 1000, sentinel_db)) = Inr (Some ''__NOT_FOUND__'') \<and>
   fst (repeat_get_original_url 2 ''abc123'' (snd (get_original_url ''abc123'' (URLCache 1000, sentinel_db)))) =
     [Inr None, Inr None]"
proof -
  have h: "peek (URLCache 1000) ''abc123'' = None" "1 \<le> maxsize (cache (URLCache 1000))"
    "select_by_code sentinel_db ''abc123'' = Some sentinel_row"
    "original_url sentinel_row = NOT_FOUND"
    by (simp_all add: eval_defs sentinel_db_def sentinel_row_def)
  show ?thesis
    using sentinel_url_lost_after_first_resolve[OF h, of "Suc 0"] h
    by (simp add: NOT_FOUND_def numeral_2_eq_2)
qed

lemma select_by_code_insert:
  "select_by_code db code = None \<Longrightarrow>
   insert_url db code url custom expires =
     (Inr (), executed (db\<lparr>urls := urls db @
              [\<lparr>short_code = code, original_url = url, click_count = 0,
                is_custom = custom, expires_at = expires\<rparr>]\<rparr>))"
  by (simp add: insert_url_def)

lemma find_snoc:
  "find P (xs @ [x]) = (case find P xs of Some y \<Rightarrow> Some y | None \<Rightarrow> if P x then Some x else None)"
  by (induction xs) auto

lemma select_after_insert:
  "select_by_code db code = None \<Longrightarrow>
   select_by_code (executed (db\<lparr>urls := urls db @ [r]\<rparr>)) code =
     (if short_code r = code then Some r else None)"
  by (simp add: select_by_code_def executed_def find_snoc)

lemma peek_invalidate: "peek (snd (URLCache_invalidate c code)) code = None"
proof -
  have "map_of (filter (\<lambda>e. fst e \<noteq> code) es) code = None" for es :: "entry list"
    by (induction es) auto
  then show ?thesis
    by (simp add: URLCache_invalidate_def lru_pop_def lru_contains_def peek_def)
qed

lemma maxsize_invalidate: "maxsize (cache (snd (URLCache_invalidate c code))) = maxsize (cache c)"
  by (simp add: URLCache_invalidate_def lru_pop_def)

lemma save_and_invalidate_ok:
  assumes "select_by_code db code = None"
  shows "save_and_invalidate code url custom expires (c, db) =
     (Inr code, snd (URLCache_invalidate c code),
      executed (db\<lparr>urls := urls db @
              [\<lparr>short_code = code, original_url = url, click_count = 0,
                is_custom = custom, expires_at = expires\<rparr>]\<rparr>))"
  using assms by (simp add: save_and_invalidate_def select_by_code_insert URLCache_invalidate_def)

text \<open>
  Claim C5. Whatever the cache holds for \<open>code\<close> (a cached sentinel included), once the new
  row is inserted and \<open>cache.invalidate(code)\<close> has run, the cache has no entry for \<open>code\<close>
  and the next lookup returns the new URL. The same holds through \<open>shorten_url\<close> with a
  custom code, when neither the URL nor the code is in the store yet.
\<close>

theorem creation_invalidates_negative_entry:
  assumes "1 \<le> maxsize (cache c)" and "select_by_code db code = None"
  shows "fst (save_and_invalidate code url custom expires (c, db)) = Inr code \<and>
         peek (fst (snd (save_and_invalidate code url custom expires (c, db)))) code = None \<and>
         fst (get_original_url code (snd (save_and_invalidate code url custom expires (c, db)))) =
           Inr (Some url) \<and>
         (code \<noteq> [] \<and> find (\<lambda>r. original_url r = url) (urls db) = None \<longrightarrow>
            (\<exists>c1 db1. shorten_url rng url (Some code) expires (c, p, db) = Some (Inr code, c1, p, db1) \<and>
               fst (get_original_url code (c1, db1)) = Inr (Some url)))"
proof -
  let ?row = "\<lparr>short_code = code, original_url = url, click_count = 0,
                is_custom = custom, expires_at = expires\<rparr>"
  have res: "fst (get_original_url code (snd (save_and_invalidate code url cu expires (c, db')))) =
           Inr (Some url)" if "select_by_code db' code = None" for db' cu
  proof -
    let ?r = "\<lparr>short_code = code, original_url = url, click_count = 0,
                is_custom = cu, expires_at = expires\<rparr>"
    have "select_by_code (executed (db'\<lparr>urls := urls db' @ [?r]\<rparr>)) code = Some ?r"
      using that by (simp add: select_after_insert)
    then show ?thesis
      using assms(1) that
      by (simp add: save_and_invalidate_ok
            get_original_url_miss_found[OF peek_invalidate] maxsize_invalidate)
  qed
  have p1: "fst (save_and_invalidate code url custom expires (c, db)) = Inr code"
    using assms(2) by (simp add: save_and_invalidate_ok)
  have p2: "peek (fst (snd (save_and_invalidate code url custom expires (c, db)))) code = None"
    using assms(2) by (simp add: save_and_invalidate_ok peek_invalidate)
  have p4: "\<exists>c1 db1. shorten_url rng url (Some code) expires (c, p, db) = Some (Inr code, c1, p, db1) \<and>
               fst (get_original_url code (c1, db1)) = Inr (Some url)"
    if h: "code \<noteq> []" "find (\<lambda>r. original_url r = url) (urls db) = None"
  proof -
    obtain y ys where code: "code = y # ys" using h(1) by (cases code) auto
    have sel: "select_by_code (executed db) code = None"
      using assms(2) by (simp add: select_by_code_def executed_def)
    then have sel2: "select_by_code (executed (executed db)) code = None"
      by (simp add: select_by_code_def executed_def)
    have "shorten_url rng url (Some code) expires (c, p, db) =
          (case save_and_invalidate code url True expires (c, executed (executed db)) of
             (r, c1, db3) \<Rightarrow> Some (r, c1, p, db3))"
      using h(2) sel unfolding code
      by (simp add: shorten_url_def get_existing_code_def code_exists_def)
    then show ?thesis
      using res[OF sel2, of True] sel2 by (simp add: save_and_invalidate_ok)
  qed
  show ?thesis using p1 p2 res[OF assms(2), of custom] p4 by blast
qed

theorem creation_invalidates_negative_entry_witness:
  "1 \<le> maxsize (cache negative_cache) \<and> select_by_code empty_db ''promo1'' = None \<and>
   peek negative_cache ''promo1'' = Some (Some NOT_FOUND) \<and>
   fst (get_original_url ''promo1'' (negative_cache, empty_db)) = Inr None \<and>
   ''promo1'' \<noteq> [] \<and> find (\<lambda>r. original_url r = ''https://example.com/'') (urls empty_db) = None \<and>
   fst (get_original_url ''promo1''
          (snd (save_and_invalidate ''promo1'' ''https://example.com/'' True None (negative_cache, empty_db)))) =
     Inr (Some ''https://example.com/'') \<and>
   (\<exists>c1 db1. shorten_url (\<lambda>i. 0) ''https://example.com/'' (Some ''promo1'') None (negative_cache, 0, empty_db) =
        Some (Inr ''promo1'', c1, 0, db1) \<and>
      fst (get_original_url ''promo1'' (c1, db1)) = Inr (Some ''https://example.com/''))"
proof -
  have h: "1 \<le> maxsize (cache negative_cache)" "select_by_code empty_db ''promo1'' = None"
    by (simp_all add: eval_defs ex_defs)
  have h': "peek negative_cache ''promo1'' = Some (Some NOT_FOUND)"
    "fst (get_original_url ''promo1'' (negative_cache, empty_db)) = Inr None"
    "find (\<lambda>r. original_url r = ''https://example.com/'') (urls empty_db) = None"
    by (simp_all add: eval_defs ex_defs)
  show ?thesis
    using creation_invalidates_negative_entry
      [OF h, of "''https://example.com/''" True None "\<lambda>i. 0" 0] h h'
    by simp
qed


text \<open>
  Claim C6, amended. \<open>get\<close>, \<open>invalidate\<close>, \<open>clear\<close>, \<open>size\<close> and \<open>stats\<close> never raise, and \<open>set\<close>
  does not raise on a cache of capacity at least 1. \<open>get\<close> returns a single optional value,
  not a pair: for an absent key it returns \<open>None\<close>, and for a key cached with a string
  (the sentinel included) it returns that string, which is not \<open>None\<close>.
\<close>

theorem cache_operations_total_absence_is_None:
  "(\<exists>r. fst (URLCache_get s key) = Inr r) \<and>
   fst (URLCache_invalidate s key) = Inr () \<and>
   fst (URLCache_clear s) = Inr () \<and>
   (\<exists>n. fst (URLCache_size s) = Inr n) \<and>
   (\<exists>d. fst (URLCache_stats s) = Inr d) \<and>
   (1 \<le> maxsize (cache s) \<longrightarrow> fst (URLCache_set s key v) = Inr ()) \<and>
   (key \<notin> set (keys_of s) \<longrightarrow> fst (URLCache_get s key) = Inr None) \<and>
   (peek s key' = Some (Some u) \<longrightarrow>
      key' \<in> set (keys_of s) \<and> fst (URLCache_get s key') = Inr (Some u) \<and>
      fst (URLCache_get s key') \<noteq> Inr None)"
proof -
  have p1: "\<exists>r. fst (URLCache_get s key) = Inr r" by (simp add: URLCache_get_Inr)
  have p5: "fst (URLCache_set s key v) = Inr ()" if "1 \<le> maxsize (cache s)"
    using that by (simp add: URLCache_set_ok)
  have p6: "fst (URLCache_get s key) = Inr None" if "key \<notin> set (keys_of s)"
    using that peek_None_iff[of s key] by (simp add: URLCache_get_miss)
  have p7: "key' \<in> set (keys_of s) \<and> fst (URLCache_get s key') = Inr (Some u) \<and>
      fst (URLCache_get s key') \<noteq> Inr None" if "peek s key' = Some (Some u)"
    using that peek_None_iff[of s key'] by (simp add: URLCache_get_hit)
  show ?thesis
    using p1 p5 p6 p7
    by (simp add: URLCache_invalidate_def URLCache_clear_def URLCache_size_def
          URLCache_stats_def Let_def)
qed

theorem cache_operations_total_absence_is_None_witness:
  "1 \<le> maxsize (cache negative_cache) \<and>
   fst (URLCache_set negative_cache ''other'' (Some ''https://example.com/'')) = Inr () \<and>
   ''other'' \<notin> set (keys_of negative_cache) \<and>
   fst (URLCache_get negative_cache ''other'') = Inr None \<and>
   peek negative_cache ''promo1'' = Some (Some NOT_FOUND) \<and>
   fst (URLCache_get negative_cache ''promo1'') = Inr (Some NOT_FOUND)"
proof -
  have h: "1 \<le> maxsize (cache negative_cache)" "''other'' \<notin> set (keys_of negative_cache)"
    "peek negative_cache ''promo1'' = Some (Some NOT_FOUND)"
    by (simp_all add: eval_defs ex_defs)
  show ?thesis
    using cache_operations_total_absence_is_None
      [of negative_cache "''other''" "Some ''https://example.com/''" "''promo1''" NOT_FOUND] h
    by simp
qed

text \<open>
  Claim C6 as stated fails: a key cached with the value \<open>None\<close> (which \<open>set\<close> accepts) and
  an absent key give the same result of \<open>get\<close>, and \<open>set\<close> raises ValueError on a cache of
  capacity 0.
\<close>

theorem cache_get_pair_counterexample:
  "peek (snd (URLCache_set (URLCache 1000) ''promo1'' None)) ''promo1'' = Some None \<and>
   peek (URLCache 1000) ''promo1'' = None \<and>
   fst (URLCache_get (snd (URLCache_set (URLCache 1000) ''promo1'' None)) ''promo1'') =
     fst (URLCache_get (URLCache 1000) ''promo1'') \<and>
   fst (URLCache_set (URLCache 0) ''promo1'' (Some ''https://example.com/'')) = Inl ValueError"
  by (simp add: eval_defs)

section \<open>Properties of the validator\<close>

lemma reserved_nonempty: "lower s \<in> set reserved \<Longrightarrow> s \<noteq> []"
  by (auto simp: reserved_def lower_def)

lemma ascii_isalnum_characters:
  "\<forall>ch. of_char ch < (128::nat) \<longrightarrow> (char_isalnum ch \<longleftrightarrow> ch \<in> set characters)"
  by code_simp

lemma shorten_url_empty_custom_code:
  "shorten_url rng url (Some []) expires st = shorten_url rng url None expires st"
proof -
  obtain c p db where st: "st = (c, p, db)" by (cases st) auto
  obtain e db1 where g: "get_existing_code db url = (e, db1)"
    by (cases "get_existing_code db url")
  show ?thesis
    by (simp add: shorten_url_def st g split: option.splits list.splits)
qed

text \<open>
  Claim C9, amended. \<open>validate_custom_code\<close> rejects every non-empty code whose length is
  outside 3..20, every code with a character that \<open>str.isalnum\<close> rejects, and every code whose
  lower-case form is a reserved word (so \<open>api\<close> and \<open>API\<close> are rejected); it accepts
  \<open>mycode123\<close>. Among the ASCII characters \<open>str.isalnum\<close> accepts exactly the 62 letters and
  digits of \<open>characters\<close>, so a code with any other ASCII character is rejected; beyond ASCII
  it accepts letters and numerals such as the code points 0xAA (feminine ordinal), 0xB2
  (superscript two) and 0xBC (one quarter), and codes made of them pass.
  The empty code and \<open>None\<close> pass unvalidated, and \<open>shorten_url\<close> treats the empty code as
  no custom code. Altogether a code is accepted exactly when it is empty or has a length in
  3..20, only characters that \<open>str.isalnum\<close> accepts, and a lower-case form outside the
  reserved set.
\<close>

theorem validate_custom_code_rejects:
  "(s1 \<noteq> [] \<and> (length s1 < 3 \<or> 20 < length s1) \<longrightarrow> validate_custom_code (Some s1) = Inl ValueError) \<and>
   ((\<exists>ch \<in> set s2. \<not> char_isalnum ch) \<longrightarrow> validate_custom_code (Some s2) = Inl ValueError) \<and>
   ((\<exists>ch \<in> set s4. of_char ch < (128::nat) \<and> ch \<notin> set characters) \<longrightarrow>
      validate_custom_code (Some s4) = Inl ValueError) \<and>
   (lower s3 \<in> set reserved \<longrightarrow> validate_custom_code (Some s3) = Inl ValueError) \<and>
   validate_custom_code (Some ''ab'') = Inl ValueError \<and>
   validate_custom_code (Some ''api'') = Inl ValueError \<and>
   validate_custom_code (Some ''API'') = Inl ValueError \<and>
   validate_custom_code (Some ''mycode123'') = Inr (Some ''mycode123'') \<and>
   validate_custom_code (Some []) = Inr (Some []) \<and>
   validate_custom_code None = Inr None \<and>
   (validate_custom_code (Some s) = Inr (Some s) \<longleftrightarrow>
      s = [] \<or> (3 \<le> length s \<and> length s \<le> 20 \<and> list_all char_isalnum s \<and> lower s \<notin> set reserved)) \<and>
   (of_char c < (128::nat) \<longrightarrow> (char_isalnum c \<longleftrightarrow> c \<in> set characters)) \<and>
   length characters = 62 \<and> list_all char_isalnum characters \<and>
   validate_custom_code (Some [CHR ''a'', CHR ''b'', CHR 0xAA]) =
     Inr (Some [CHR ''a'', CHR ''b'', CHR 0xAA]) \<and>
   validate_custom_code (Some [CHR ''H'', CHR ''E'', CHR ''A'', CHR ''L'', CHR ''T'', CHR ''H'', CHR 0xB2]) =
     Inr (Some [CHR ''H'', CHR ''E'', CHR ''A'', CHR ''L'', CHR ''T'', CHR ''H'', CHR 0xB2]) \<and>
   validate_custom_code (Some [CHR 0xBC, CHR 0xBD, CHR 0xBE]) =
     Inr (Some [CHR 0xBC, CHR 0xBD, CHR 0xBE]) \<and>
   CHR 0xAA \<notin> set characters \<and> CHR 0xB2 \<notin> set characters \<and> CHR 0xBC \<notin> set characters \<and>
   shorten_url rng url (Some []) expires st = shorten_url rng url None expires st"
proof -
  have p1: "validate_custom_code (Some s1) = Inl ValueError"
    if "s1 \<noteq> []" "length s1 < 3 \<or> 20 < length s1"
    using that by (auto simp: validate_custom_code_def)
  have p2: "validate_custom_code (Some s2) = Inl ValueError" if "\<exists>ch \<in> set s2. \<not> char_isalnum ch"
    for s2
  proof -
    have "s2 \<noteq> []" "\<not> isalnum s2" using that by (auto simp: isalnum_def list_all_iff)
    then show ?thesis by (simp add: validate_custom_code_def)
  qed
  have p2': "validate_custom_code (Some s4) = Inl ValueError"
    if "\<exists>ch \<in> set s4. of_char ch < (128::nat) \<and> ch \<notin> set characters"
  proof -
    have "\<exists>ch \<in> set s4. \<not> char_isalnum ch"
      using that ascii_isalnum_characters by blast
    then show ?thesis by (rule p2)
  qed
  have p3: "validate_custom_code (Some s3) = Inl ValueError" if "lower s3 \<in> set reserved"
    using that reserved_nonempty[OF that] by (simp add: validate_custom_code_def)
  have e1: "validate_custom_code (Some ''ab'') = Inl ValueError" by code_simp
  have e2: "validate_custom_code (Some ''api'') = Inl ValueError" by code_simp
  have e3: "validate_custom_code (Some ''API'') = Inl ValueError" by code_simp
  have e4: "validate_custom_code (Some ''mycode123'') = Inr (Some ''mycode123'')" by code_simp
  have e5: "validate_custom_code (Some []) = Inr (Some [])" "validate_custom_code None = Inr None"
    by (simp_all add: validate_custom_code_def)
  have p4: "validate_custom_code (Some s) = Inr (Some s) \<longleftrightarrow>
      s = [] \<or> (3 \<le> length s \<and> length s \<le> 20 \<and> list_all char_isalnum s \<and> lower s \<notin> set reserved)"
    by (auto simp: validate_custom_code_def isalnum_def)
  have p5: "of_char c < (128::nat) \<longrightarrow> (char_isalnum c \<longleftrightarrow> c \<in> set characters)"
    using ascii_isalnum_characters by blast
  have a1: "length characters = 62" by code_simp
  have a2: "list_all char_isalnum characters" by code_simp
  have u1: "validate_custom_code (Some [CHR ''a'', CHR ''b'', CHR 0xAA]) =
     Inr (Some [CHR ''a'', CHR ''b'', CHR 0xAA])" by code_simp
  have u2: "validate_custom_code (Some [CHR ''H'', CHR ''E'', CHR ''A'', CHR ''L'', CHR ''T'', CHR ''H'', CHR 0xB2]) =
     Inr (Some [CHR ''H'', CHR ''E'', CHR ''A'', CHR ''L'', CHR ''T'', CHR ''H'', CHR 0xB2])"
    by code_simp
  have u3: "validate_custom_code (Some [CHR 0xBC, CHR 0xBD, CHR 0xBE]) =
     Inr (Some [CHR 0xBC, CHR 0xBD, CHR 0xBE])" by code_simp
  have n1: "CHR 0xAA \<notin> set characters" by code_simp
  have n2: "CHR 0xB2 \<notin> set characters" by code_simp
  have n3: "CHR 0xBC \<notin> set characters" by code_simp
  note s = shorten_url_empty_custom_code[of rng url expires st]
  show ?thesis
    apply (intro conjI impI)
    using p1 p2 p2' p3 e1 e2 e3 e4 e5 p4 p5 a1 a2 u1 u2 u3 n1 n2 n3 s by blast+
qed

theorem validate_custom_code_rejects_witness:
  "''ab'' \<noteq> [] \<and> length ''ab'' < 3 \<and>
   validate_custom_code (Some ''ab'') = Inl ValueError \<and>
   (\<exists>ch \<in> set ''my-code''. \<not> char_isalnum ch) \<and>
   (\<exists>ch \<in> set ''my-code''. of_char ch < (128::nat) \<and> ch \<notin> set characters) \<and>
   validate_custom_code (Some ''my-code'') = Inl ValueError \<and>
   lower ''Cache'' \<in> set reserved \<and>
   validate_custom_code (Some ''Cache'') = Inl ValueError \<and>
   of_char (CHR ''-'') < (128::nat) \<and> \<not> char_isalnum (CHR ''-'') \<and>
   validate_custom_code (Some ''promo1'') = Inr (Some ''promo1'')"
proof -
  have h2: "\<exists>ch \<in> set ''my-code''. \<not> char_isalnum ch" by code_simp
  have h2': "\<exists>ch \<in> set ''my-code''. of_char ch < (128::nat) \<and> ch \<notin> set characters" by code_simp
  have h3: "lower ''Cache'' \<in> set reserved" by code_simp
  have h4: "3 \<le> length ''promo1'' \<and> length ''promo1'' \<le> 20 \<and> list_all char_isalnum ''promo1'' \<and>
     lower ''promo1'' \<notin> set reserved" by code_simp
  have h5: "of_char (CHR ''-'') < (128::nat)" "CHR ''-'' \<notin> set characters" by code_simp+
  show ?thesis
    using validate_custom_code_rejects
      [of "''ab''" "''my-code''" "''my-code''" "''Cache''" "''promo1''" "CHR ''-''"] h2 h2' h3 h4 h5
    by simp
qed

text \<open>
  Claim C9 as stated fails twice. The empty code has length 0, outside 3..20, and the
  validator accepts it (the guard \<open>if v:\<close> skips every check). And the codes \<open>ab\<close> followed
  by the code point 0xAA, \<open>HEALTH\<close> followed by 0xB2, and the three code points 0xBC, 0xBD,
  0xBE are accepted although each holds a character outside the 62 letters and digits:
  \<open>str.isalnum\<close> accepts them.
\<close>

theorem validate_custom_code_empty_counterexample:
  "length ([] :: string) < 3 \<and> validate_custom_code (Some []) \<noteq> Inl ValueError \<and>
   validate_custom_code (Some []) = Inr (Some []) \<and>
   CHR 0xAA \<notin> set characters \<and>
   validate_custom_code (Some [CHR ''a'', CHR ''b'', CHR 0xAA]) =
     Inr (Some [CHR ''a'', CHR ''b'', CHR 0xAA]) \<and>
   CHR 0xB2 \<notin> set characters \<and>
   validate_custom_code (Some [CHR ''H'', CHR ''E'', CHR ''A'', CHR ''L'', CHR ''T'', CHR ''H'', CHR 0xB2]) =
     Inr (Some [CHR ''H'', CHR ''E'', CHR ''A'', CHR ''L'', CHR ''T'', CHR ''H'', CHR 0xB2]) \<and>
   CHR 0xBC \<notin> set characters \<and> CHR 0xBD \<notin> set characters \<and> CHR 0xBE \<notin> set characters \<and>
   validate_custom_code (Some [CHR 0xBC, CHR 0xBD, CHR 0xBE]) =
     Inr (Some [CHR 0xBC, CHR 0xBD, CHR 0xBE])"
proof -
  have e: "validate_custom_code (Some []) = Inr (Some [])"
    by (simp add: validate_custom_code_def)
  have n: "CHR 0xAA \<notin> set characters" "CHR 0xB2 \<notin> set characters"
    "CHR 0xBC \<notin> set characters" "CHR 0xBD \<notin> set characters" "CHR 0xBE \<notin> set characters"
    by code_simp+
  have u1: "validate_custom_code (Some [CHR ''a'', CHR ''b'', CHR 0xAA]) =
     Inr (Some [CHR ''a'', CHR ''b'', CHR 0xAA])" by code_simp
  have u2: "validate_custom_code (Some [CHR ''H'', CHR ''E'', CHR ''A'', CHR ''L'', CHR ''T'', CHR ''H'', CHR 0xB2]) =
     Inr (Some [CHR ''H'', CHR ''E'', CHR ''A'', CHR ''L'', CHR ''T'', CHR ''H'', CHR 0xB2])"
    by code_simp
  have u3: "validate_custom_code (Some [CHR 0xBC, CHR 0xBD, CHR 0xBE]) =
     Inr (Some [CHR 0xBC, CHR 0xBD, CHR 0xBE])" by code_simp
  show ?thesis using e n u1 u2 u3 by simp
qed

section \<open>Properties of the rate limiter\<close>

lemma check_rate_limit_reject:
  assumes "requests \<le> int (length (recent_requests win now (tr ip)))"
    and "recent_requests win now (tr ip) \<noteq> []"
  shows "check_rate_limit requests win now tr ip =
     (Inr (False, Some \<lparr>retry_after = \<lfloor>of_int win - (now - hd (recent_requests win now (tr ip)))\<rfloor> + 1,
                        limit = requests, window = win\<rparr>),
      tr(ip := recent_requests win now (tr ip)))"
proof -
  obtain t ts where k: "recent_requests win now (tr ip) = t # ts"
    using assms(2) by (cases "recent_requests win now (tr ip)") auto
  then have "t \<in> set (recent_requests win now (tr ip))" by simp
  then have "now - t < of_int win" by (simp add: recent_requests_def)
  then have "py_int (of_int win - (now - t)) = \<lfloor>of_int win - (now - t)\<rfloor>"
    by (simp add: py_int_def)
  then show ?thesis
    using assms(1) k by (simp add: check_rate_limit_def Let_def)
qed

lemma check_rate_limit_admit:
  assumes "int (length (recent_requests win now (tr ip))) < requests"
  shows "check_rate_limit requests win now tr ip =
     (Inr (True, None), tr(ip := recent_requests win now (tr ip) @ [now]))"
  using assms by (simp add: check_rate_limit_def Let_def)

lemma check_rate_limit_raises:
  assumes "requests \<le> 0" and "recent_requests win now (tr ip) = []"
  shows "check_rate_limit requests win now tr ip = (Inl IndexError, tr(ip := []))"
  using assms by (simp add: check_rate_limit_def Let_def)

lemma retry_bounds:
  fixes x :: real
  shows "x < of_int (\<lfloor>x\<rfloor> + 1) \<and> of_int (\<lfloor>x\<rfloor> + 1) \<le> x + 1"
  by (simp; linarith)

lemma retry_then_admitted:
  assumes len: "int (length (tr ip)) \<le> requests"
    and rej: "fst (check_rate_limit requests win now tr ip) = Inr (False, Some info)"
  shows "fst (check_rate_limit requests win (now + of_int (retry_after info))
                (snd (check_rate_limit requests win now tr ip)) ip) = Inr (True, None)"
proof -
  let ?kept = "recent_requests win now (tr ip)"
  have ne: "?kept \<noteq> []" and ge: "requests \<le> int (length ?kept)"
    using rej by (auto simp: check_rate_limit_def Let_def split: if_splits list.splits)
  note r = check_rate_limit_reject[of requests win now tr ip, OF ge ne]
  obtain t ts where k: "?kept = t # ts" using ne by (cases ?kept) auto
  have info: "retry_after info = \<lfloor>of_int win - (now - t)\<rfloor> + 1"
    using rej unfolding r k by auto
  have "of_int win - (now - t) < of_int (retry_after info)"
    unfolding info using retry_bounds[of "of_int win - (now - t)"] by blast
  then have drop: "\<not> (now + of_int (retry_after info) - t < of_int win)" by linarith
  have "length ?kept \<le> length (tr ip)" by (simp add: recent_requests_def)
  then have lk: "int (length ?kept) \<le> requests" using len by linarith
  have "length (recent_requests win (now + of_int (retry_after info)) ?kept) \<le> length ts"
    unfolding k using drop by (simp add: recent_requests_def)
  then have "int (length (recent_requests win (now + of_int (retry_after info)) ?kept)) < requests"
    using lk unfolding k by simp
  then show ?thesis
    unfolding r by (simp add: check_rate_limit_admit)
qed

lemma check_rate_limit_length:
  assumes "0 \<le> requests" "int (length (tr ip)) \<le> requests"
  shows "int (length (snd (check_rate_limit requests win now tr ip) ip)) \<le> requests"
proof -
  have "length (recent_requests win now (tr ip)) \<le> length (tr ip)"
    by (simp add: recent_requests_def)
  then show ?thesis
    using assms by (auto simp: check_rate_limit_def Let_def split: list.splits)
qed

lemma scenario:
  assumes "tr ip = []" "t1 \<le> t2" "t2 \<le> t3" "t3 \<le> t4" "t4 - t1 < of_int win" "of_int win \<le> t5 - t1"
  shows "\<exists>info. fst (check_rate_limit_at 3 win ip [t1, t2, t3, t4, t5] tr) =
           [Inr (True, None), Inr (True, None), Inr (True, None), Inr (False, Some info), Inr (True, None)] \<and>
         0 < retry_after info"
proof -
  have w: "0 < win" using assms by linarith
  let ?tr1 = "tr(ip := [t1])" let ?tr2 = "tr(ip := [t1, t2])" let ?tr3 = "tr(ip := [t1, t2, t3])"
  have c1: "check_rate_limit 3 win t1 tr ip = (Inr (True, None), ?tr1)"
    using assms(1) by (simp add: check_rate_limit_def recent_requests_def)
  have c2: "check_rate_limit 3 win t2 ?tr1 ip = (Inr (True, None), ?tr2)"
    using assms by (simp add: check_rate_limit_def recent_requests_def)
  have c3: "check_rate_limit 3 win t3 ?tr2 ip = (Inr (True, None), ?tr3)"
    using assms by (simp add: check_rate_limit_def recent_requests_def)
  have k4: "recent_requests win t4 (?tr3 ip) = [t1, t2, t3]"
    using assms by (simp add: recent_requests_def)
  have c4: "check_rate_limit 3 win t4 ?tr3 ip =
     (Inr (False, Some \<lparr>retry_after = \<lfloor>of_int win - (t4 - t1)\<rfloor> + 1, limit = 3, window = win\<rparr>), ?tr3)"
    using check_rate_limit_reject[of 3 win t4 ?tr3 ip] unfolding k4 by simp
  have "length (recent_requests win t5 (?tr3 ip)) \<le> 2"
    using assms by (simp add: recent_requests_def)
  then have "fst (check_rate_limit 3 win t5 ?tr3 ip) = Inr (True, None)"
    by (simp add: check_rate_limit_admit)
  then obtain tr5 where c5: "check_rate_limit 3 win t5 ?tr3 ip = (Inr (True, None), tr5)"
    by (cases "check_rate_limit 3 win t5 ?tr3 ip") auto
  have pos: "0 < \<lfloor>of_int win - (t4 - t1)\<rfloor> + 1"
    using assms(5) by (simp add: add_pos_nonneg)
  show ?thesis
    using pos by (simp add: c1 c2 c3 c4 c5)
qed


text \<open>
  Claim C3, amended. A check keeps the client's timestamps whose age \<open>now - t\<close> is below the
  window and drops the others (an age equal to the window is dropped). If at least \<open>limit\<close>
  timestamps remain (and one remains at all), the check rejects with
  \<open>retry_after = \<lfloor>window - (now - oldest)\<rfloor> + 1\<close>, where \<open>oldest\<close> is the first remaining
  timestamp: a positive integer, above the remaining time \<open>window - (now - oldest)\<close> by at most
  one. Otherwise it admits and appends \<open>now\<close>. A client whose list holds at most \<open>limit\<close>
  timestamps keeps that bound, and after a rejection its check at \<open>now + retry_after\<close> is
  admitted. With limit 3: three checks and a fourth at clock readings within one window are
  allowed, allowed, allowed and rejected with a positive \<open>retry_after\<close>, and a check one window
  or more after the first is allowed again.
\<close>

theorem rate_limit_sliding_window:
  "(requests \<le> int (length (recent_requests win now (tr ip))) \<and> recent_requests win now (tr ip) \<noteq> [] \<longrightarrow>
      check_rate_limit requests win now tr ip =
        (Inr (False, Some \<lparr>retry_after = \<lfloor>of_int win - (now - hd (recent_requests win now (tr ip)))\<rfloor> + 1,
                           limit = requests, window = win\<rparr>),
         tr(ip := recent_requests win now (tr ip))) \<and>
      of_int win - (now - hd (recent_requests win now (tr ip)))
        < of_int (\<lfloor>of_int win - (now - hd (recent_requests win now (tr ip)))\<rfloor> + 1) \<and>
      of_int (\<lfloor>of_int win - (now - hd (recent_requests win now (tr ip)))\<rfloor> + 1)
        \<le> of_int win - (now - hd (recent_requests win now (tr ip))) + 1 \<and>
      0 < \<lfloor>of_int win - (now - hd (recent_requests win now (tr ip)))\<rfloor> + 1) \<and>
   (int (length (recent_requests win now2 (tr2 ip))) < requests \<longrightarrow>
      check_rate_limit requests win now2 tr2 ip =
        (Inr (True, None), tr2(ip := recent_requests win now2 (tr2 ip) @ [now2]))) \<and>
   (int (length (tr ip)) \<le> requests \<and>
    fst (check_rate_limit requests win now tr ip) = Inr (False, Some info) \<longrightarrow>
      fst (check_rate_limit requests win (now + of_int (retry_after info))
             (snd (check_rate_limit requests win now tr ip)) ip) = Inr (True, None)) \<and>
   (0 \<le> requests \<and> int (length (tr ip)) \<le> requests \<longrightarrow>
      int (length (snd (check_rate_limit requests win now tr ip) ip)) \<le> requests) \<and>
   (tr0 ip = [] \<and> t1 \<le> t2 \<and> t2 \<le> t3 \<and> t3 \<le> t4 \<and> t4 - t1 < of_int win \<and> of_int win \<le> t5 - t1 \<longrightarrow>
      (\<exists>rejected. fst (check_rate_limit_at 3 win ip [t1, t2, t3, t4, t5] tr0) =
           [Inr (True, None), Inr (True, None), Inr (True, None), Inr (False, Some rejected),
            Inr (True, None)] \<and>
         0 < retry_after rejected))"
proof -
  let ?kept = "recent_requests win now (tr ip)"
  let ?x = "of_int win - (now - hd ?kept)"
  have p1: "check_rate_limit requests win now tr ip =
        (Inr (False, Some \<lparr>retry_after = \<lfloor>?x\<rfloor> + 1, limit = requests, window = win\<rparr>),
         tr(ip := ?kept)) \<and>
      ?x < of_int (\<lfloor>?x\<rfloor> + 1) \<and> of_int (\<lfloor>?x\<rfloor> + 1) \<le> ?x + 1 \<and> 0 < \<lfloor>?x\<rfloor> + 1"
    if h: "requests \<le> int (length ?kept)" "?kept \<noteq> []"
  proof -
    have "hd ?kept \<in> set ?kept" using h(2) by simp
    then have "now - hd ?kept < of_int win" by (simp add: recent_requests_def)
    then have "0 < \<lfloor>?x\<rfloor> + 1" by (simp add: add_pos_nonneg)
    then show ?thesis
      using check_rate_limit_reject[of requests win now tr ip, OF h] retry_bounds[of ?x] by blast
  qed
  have p2: "check_rate_limit requests win now2 tr2 ip =
        (Inr (True, None), tr2(ip := recent_requests win now2 (tr2 ip) @ [now2]))"
    if "int (length (recent_requests win now2 (tr2 ip))) < requests"
    using that by (rule check_rate_limit_admit)
  have p3: "fst (check_rate_limit requests win (now + of_int (retry_after info))
             (snd (check_rate_limit requests win now tr ip)) ip) = Inr (True, None)"
    if "int (length (tr ip)) \<le> requests"
       "fst (check_rate_limit requests win now tr ip) = Inr (False, Some info)"
    using that by (rule retry_then_admitted)
  have p4: "int (length (snd (check_rate_limit requests win now tr ip) ip)) \<le> requests"
    if "0 \<le> requests" "int (length (tr ip)) \<le> requests"
    using that by (rule check_rate_limit_length)
  have p5: "\<exists>rejected. fst (check_rate_limit_at 3 win ip [t1, t2, t3, t4, t5] tr0) =
           [Inr (True, None), Inr (True, None), Inr (True, None), Inr (False, Some rejected),
            Inr (True, None)] \<and>
         0 < retry_after rejected"
    if "tr0 ip = []" "t1 \<le> t2" "t2 \<le> t3" "t3 \<le> t4" "t4 - t1 < of_int win" "of_int win \<le> t5 - t1"
    using that by (rule scenario)
  show ?thesis using p1 p2 p3 p4 p5 by blast
qed

theorem rate_limit_sliding_window_witness:
  "(1::int) \<le> int (length (recent_requests 60 (1/2) (one_request ''10.0.0.1''))) \<and>
   recent_requests 60 (1/2) (one_request ''10.0.0.1'') \<noteq> [] \<and>
   check_rate_limit 1 60 (1/2) one_request ''10.0.0.1'' =
     (Inr (False, Some \<lparr>retry_after = 60, limit = 1, window = 60\<rparr>), one_request) \<and>
   int (length (recent_requests 60 61 (one_request ''10.0.0.1''))) < 1 \<and>
   check_rate_limit 1 60 61 one_request ''10.0.0.1'' =
     (Inr (True, None), one_request(''10.0.0.1'' := [61])) \<and>
   int (length (one_request ''10.0.0.1'')) \<le> 1 \<and>
   fst (check_rate_limit 1 60 (1/2 + 60) one_request ''10.0.0.1'') = Inr (True, None) \<and>
   (\<exists>rejected. fst (check_rate_limit_at 3 60 ''10.0.0.1'' [0, 1/4, 1/2, 3/4, 61] (\<lambda>ip. [])) =
      [Inr (True, None), Inr (True, None), Inr (True, None), Inr (False, Some rejected),
       Inr (True, None)] \<and> 0 < retry_after rejected)"
proof -
  have k: "recent_requests 60 (1/2) [0] = [0]"
    "recent_requests 60 61 [0] = []"
    "one_request ''10.0.0.1'' = [0]"
    by (simp_all add: recent_requests_def one_request_def)
  have f: "\<lfloor>119 / 2 :: real\<rfloor> = 59" by simp
  have u: "one_request(''10.0.0.1'' := [0]) = one_request"
    by (simp add: one_request_def)
  have r: "check_rate_limit 1 60 (1/2) one_request ''10.0.0.1'' =
     (Inr (False, Some \<lparr>retry_after = 60, limit = 1, window = 60\<rparr>), one_request)"
    using rate_limit_sliding_window
      [of 1 60 "1/2" one_request "''10.0.0.1''" 61 one_request
          "\<lparr>retry_after = 60, limit = 1, window = 60\<rparr>" "\<lambda>ip. []" 0 "1/4" "1/2" "3/4" 61]
    by (simp add: k f u)
  show ?thesis
    using rate_limit_sliding_window
      [of 1 60 "1/2" one_request "''10.0.0.1''" 61 one_request
          "\<lparr>retry_after = 60, limit = 1, window = 60\<rparr>" "\<lambda>ip. []" 0 "1/4" "1/2" "3/4" 61] r
    by (simp add: k f u)
qed

text \<open>
  Claim C3 as stated fails. One request at clock reading 0, limit 1, window 60: the check at
  reading 1/2 answers \<open>retry_after = 60\<close>, which is neither \<open>60 - (1/2 - 0) + 1\<close> nor that value
  rounded up (61); and at reading 60 the request at 0 is not older than \<open>now - window\<close>, yet
  it is dropped and the check is admitted.
\<close>

theorem rate_limit_formula_counterexample:
  "fst (check_rate_limit 1 60 (1/2) one_request ''10.0.0.1'') =
     Inr (False, Some \<lparr>retry_after = 60, limit = 1, window = 60\<rparr>) \<and>
   real_of_int 60 \<noteq> 60 - (1/2 - 0) + 1 \<and>
   (60::int) \<noteq> \<lceil>60 - (1/2 - 0) + 1 :: real\<rceil> \<and>
   \<not> (0 < 60 - (60::real)) \<and>
   fst (check_rate_limit 1 60 60 one_request ''10.0.0.1'') = Inr (True, None)"
proof -
  have f: "\<lfloor>119 / 2 :: real\<rfloor> = 59" by simp
  have c: "\<lceil>121 / 2 :: real\<rceil> = 61" by simp
  show ?thesis
    by (simp add: check_rate_limit_def recent_requests_def one_request_def py_int_def f c)
qed

section \<open>Properties of the code generator\<close>

lemma select_executed: "select_by_code (executed db) code = select_by_code db code"
  by (simp add: select_by_code_def executed_def)

lemma candidate_0: "candidate rng p 0 = choices characters SHORT_CODE_LENGTH rng p"
  by (simp add: candidate_def)

lemma candidate_Suc: "candidate rng p (Suc n) = candidate rng (p + SHORT_CODE_LENGTH) n"
  by (simp add: candidate_def add.assoc)

lemma statements_executed: "statements (executed db) = Suc (statements db)"
  by (simp add: executed_def)

lemma executed_statements_update: "(executed db)\<lparr>statements := n\<rparr> = db\<lparr>statements := n\<rparr>"
  by (simp add: executed_def)

lemma generate_first_free:
  assumes "\<forall>j<k. select_by_code db (candidate rng p j) \<noteq> None"
    and "select_by_code db (candidate rng p k) = None"
  shows "generate_short_code rng p db =
           Some (candidate rng p k, p + SHORT_CODE_LENGTH * Suc k,
                 db\<lparr>statements := statements db + Suc k\<rparr>)"
  using assms
proof (induction k arbitrary: p db)
  case 0
  then show ?case
    by (subst generate_short_code.simps) (simp add: code_exists_def candidate_0 executed_def)
next
  case (Suc k)
  have c0: "select_by_code db (choices characters SHORT_CODE_LENGTH rng p) \<noteq> None"
    using Suc.prems(1) by (auto simp: candidate_0[symmetric])
  have "\<forall>j<k. select_by_code (executed db) (candidate rng (p + SHORT_CODE_LENGTH) j) \<noteq> None"
    using Suc.prems(1) by (auto simp: select_executed candidate_Suc[symmetric])
  moreover have "select_by_code (executed db) (candidate rng (p + SHORT_CODE_LENGTH) k) = None"
    using Suc.prems(2) by (simp add: select_executed candidate_Suc)
  ultimately have "generate_short_code rng (p + SHORT_CODE_LENGTH) (executed db) =
      Some (candidate rng (p + SHORT_CODE_LENGTH) k, p + SHORT_CODE_LENGTH + SHORT_CODE_LENGTH * Suc k,
            (executed db)\<lparr>statements := statements (executed db) + Suc k\<rparr>)"
    by (rule Suc.IH)
  then show ?case
    using c0
    by (subst generate_short_code.simps)
       (simp add: code_exists_def candidate_Suc statements_executed executed_statements_update add.assoc)
qed

lemma generate_returns_free:
  assumes "generate_short_code rng p db = Some y"
  shows "\<exists>k. select_by_code db (candidate rng p k) = None"
proof (rule generate_short_code.raw_induct
    [where P = "\<lambda>rng p db y. \<exists>k. select_by_code db (candidate rng p k) = None"
       and rng = rng and p = p and db = db and y = y])
  show "generate_short_code rng p db = Some y" by (rule assms)
next
  fix f :: "(nat \<Rightarrow> nat) \<Rightarrow> nat \<Rightarrow> database \<Rightarrow> (string \<times> nat \<times> database) option"
    and rng p db y
  assume ih: "\<And>rng p db y. f rng p db = Some y \<Longrightarrow>
                 \<exists>k. select_by_code db (candidate rng p k) = None"
    and eq: "(if \<not> fst (code_exists db (choices characters SHORT_CODE_LENGTH rng p))
              then Some (choices characters SHORT_CODE_LENGTH rng p, p + SHORT_CODE_LENGTH,
                         snd (code_exists db (choices characters SHORT_CODE_LENGTH rng p)))
              else f rng (p + SHORT_CODE_LENGTH)
                     (snd (code_exists db (choices characters SHORT_CODE_LENGTH rng p)))) = Some y"
  show "\<exists>k. select_by_code db (candidate rng p k) = None"
  proof (cases "select_by_code db (choices characters SHORT_CODE_LENGTH rng p) = None")
    case True
    then have "select_by_code db (candidate rng p 0) = None" by (simp add: candidate_0)
    then show ?thesis by blast
  next
    case False
    then have "f rng (p + SHORT_CODE_LENGTH) (executed db) = Some y"
      using eq by (simp add: code_exists_def)
    from ih[OF this] obtain k where
      "select_by_code (executed db) (candidate rng (p + SHORT_CODE_LENGTH) k) = None" by blast
    then have "select_by_code db (candidate rng p (Suc k)) = None"
      by (simp add: select_executed candidate_Suc)
    then show ?thesis by blast
  qed
qed

lemma generate_never_returns:
  assumes "\<forall>j. select_by_code db (candidate rng p j) \<noteq> None"
  shows "generate_short_code rng p db = None"
proof (cases "generate_short_code rng p db")
  case None
  then show ?thesis .
next
  case (Some y)
  from generate_returns_free[OF this] assms show ?thesis by blast
qed


lemma upt_6: "[0..<6] = [0, 1, 2, 3, 4, 5]"
  by (simp add: upt_rec)

lemma candidate_always_first: "candidate always_first p n = ''aaaaaa''"
  by (simp add: candidate_def choices_def SHORT_CODE_LENGTH_def characters_def always_first_def upt_6)

lemma candidate_late_free:
  "candidate late_free 0 n = (if n < 10001 then ''aaaaaa'' else ''bbbbbb'')"
  by (simp add: candidate_def choices_def SHORT_CODE_LENGTH_def characters_def late_free_def upt_6)

lemma candidate_by_pass_0: "candidate by_pass 0 0 = ''aaaaaa''"
  by (simp add: candidate_def choices_def SHORT_CODE_LENGTH_def characters_def by_pass_def upt_6)

lemma candidate_by_pass_1: "candidate by_pass 0 (Suc 0) = ''bbbbbb''"
  by (simp add: candidate_def choices_def SHORT_CODE_LENGTH_def characters_def by_pass_def upt_6)

lemma select_taken:
  "select_by_code taken_db ''aaaaaa'' \<noteq> None" "select_by_code taken_db ''bbbbbb'' = None"
  by (simp_all add: select_by_code_def taken_db_def)

text \<open>
  Claim C7, amended. \<open>generate_short_code\<close> keeps no retry count and has no retry budget.
  After any number \<open>k\<close> of passes that drew taken codes, the pass that draws a free code
  returns it, having executed \<open>k + 1\<close> existence queries; when every pass draws a taken code
  the loop never returns. No error is raised in either case.
\<close>

theorem generate_short_code_unbounded_retries:
  "((\<forall>j<k. select_by_code db (candidate rng p j) \<noteq> None) \<and>
    select_by_code db (candidate rng p k) = None \<longrightarrow>
      generate_short_code rng p db =
        Some (candidate rng p k, p + SHORT_CODE_LENGTH * Suc k,
              db\<lparr>statements := statements db + Suc k\<rparr>)) \<and>
   ((\<forall>j. select_by_code db2 (candidate rng2 p2 j) \<noteq> None) \<longrightarrow>
      generate_short_code rng2 p2 db2 = None)"
  using generate_first_free[of k db rng p] generate_never_returns[of db2 rng2 p2] by blast

theorem generate_short_code_unbounded_retries_witness:
  "select_by_code taken_db (candidate by_pass 0 0) \<noteq> None \<and>
   select_by_code taken_db (candidate by_pass 0 1) = None \<and>
   generate_short_code by_pass 0 taken_db = Some (''bbbbbb'', 12, taken_db\<lparr>statements := 2\<rparr>) \<and>
   (\<forall>j. select_by_code taken_db (candidate always_first 0 j) \<noteq> None) \<and>
   generate_short_code always_first 0 taken_db = None"
proof -
  have h1: "\<forall>j<1. select_by_code taken_db (candidate by_pass 0 j) \<noteq> None"
    by (simp add: candidate_by_pass_0 select_taken)
  have h2: "select_by_code taken_db (candidate by_pass 0 1) = None"
    by (simp add: candidate_by_pass_1 select_taken)
  have h3: "\<forall>j. select_by_code taken_db (candidate always_first 0 j) \<noteq> None"
    by (simp add: candidate_always_first select_taken)
  have s: "statements taken_db = 0" by (simp add: taken_db_def)
  show ?thesis
    using generate_short_code_unbounded_retries[of 1 taken_db by_pass 0 taken_db always_first 0]
      h1 h2 h3
    by (simp add: candidate_by_pass_0 candidate_by_pass_1 SHORT_CODE_LENGTH_def s)
qed

text \<open>
  Claim C7 as stated fails. With the code \<open>aaaaaa\<close> taken and a random stream that always
  draws \<open>aaaaaa\<close>, the loop does not terminate; and after 10001 colliding passes a free draw
  is returned as the result, where the claim expects the error KeyspaceExhausted.
\<close>

theorem generate_short_code_no_budget_counterexample:
  "generate_short_code always_first 0 taken_db = None \<and>
   generate_short_code late_free 0 taken_db =
     Some (''bbbbbb'', 60012, taken_db\<lparr>statements := 10002\<rparr>)"
proof -
  have "\<forall>j. select_by_code taken_db (candidate always_first 0 j) \<noteq> None"
    by (simp add: candidate_always_first select_taken)
  then have a: "generate_short_code always_first 0 taken_db = None"
    by (rule generate_never_returns)
  have "\<forall>j<10001. select_by_code taken_db (candidate late_free 0 j) \<noteq> None"
    by (simp add: candidate_late_free select_taken)
  moreover have "select_by_code taken_db (candidate late_free 0 10001) = None"
    by (simp add: candidate_late_free select_taken)
  ultimately have "generate_short_code late_free 0 taken_db =
      Some (candidate late_free 0 10001, 0 + SHORT_CODE_LENGTH * Suc 10001,
            taken_db\<lparr>statements := statements taken_db + Suc 10001\<rparr>)"
    by (rule generate_first_free)
  then have b: "generate_short_code late_free 0 taken_db =
     Some (''bbbbbb'', 60012, taken_db\<lparr>statements := 10002\<rparr>)"
    by (simp add: candidate_late_free SHORT_CODE_LENGTH_def taken_db_def)
  show ?thesis using a b by simp
qed

lemma characters_alphabet:
  "length characters = 62 \<and> distinct characters \<and> list_all char_isalnum characters"
  by code_simp

lemma candidate_format:
  assumes "\<forall>i. rng i < length characters"
  shows "length (candidate rng p n) = 6 \<and> set (candidate rng p n) \<subseteq> set characters"
  using assms by (auto simp: candidate_def choices_def SHORT_CODE_LENGTH_def)

lemma select_None_iff:
  "select_by_code db code = None \<longleftrightarrow> code \<notin> set (map short_code (urls db))"
  by (auto simp: select_by_code_def find_None_iff)

text \<open>
  Claim C8. Every draw selects an index of the 62 alphanumeric \<open>characters\<close>; when some pass
  of the loop draws a code that is not the \<open>short_code\<close> of any row of the store,
  \<open>generate_short_code\<close> returns: a code of 6 characters, all from \<open>characters\<close>, that is
  the \<open>short_code\<close> of no row of the store at the moment of return (and \<open>code_exists\<close>
  answers so). It is the candidate of the first such pass \<open>m\<close>: every earlier pass drew the
  \<open>short_code\<close> of a stored row and was followed by a fresh draw, one existence query per
  pass.
\<close>

theorem generate_short_code_returns_free_code:
  assumes "\<forall>i. rng i < length characters"
    and "candidate rng p k \<notin> set (map short_code (urls db))"
  shows "\<exists>code m. generate_short_code rng p db =
             Some (code, p + SHORT_CODE_LENGTH * Suc m, db\<lparr>statements := statements db + Suc m\<rparr>) \<and>
           length code = 6 \<and> set code \<subseteq> set characters \<and>
           length characters = 62 \<and> distinct characters \<and> list_all char_isalnum characters \<and>
           code \<notin> set (map short_code (urls (db\<lparr>statements := statements db + Suc m\<rparr>))) \<and>
           select_by_code (db\<lparr>statements := statements db + Suc m\<rparr>) code = None \<and>
           fst (code_exists (db\<lparr>statements := statements db + Suc m\<rparr>) code) = False \<and>
           m \<le> k \<and> code = candidate rng p m \<and>
           (\<forall>j<m. candidate rng p j \<in> set (map short_code (urls db)) \<and>
                  fst (code_exists db (candidate rng p j)))"
proof -
  have k: "select_by_code db (candidate rng p k) = None"
    using assms(2) by (simp add: select_None_iff)
  define m where "m = (LEAST n. select_by_code db (candidate rng p n) = None)"
  have free: "select_by_code db (candidate rng p m) = None"
    unfolding m_def using k by (rule LeastI)
  have le: "m \<le> k" unfolding m_def using k by (rule Least_le)
  have coll: "\<forall>j<m. select_by_code db (candidate rng p j) \<noteq> None"
    unfolding m_def using not_less_Least by blast
  let ?db' = "db\<lparr>statements := statements db + Suc m\<rparr>"
  have g: "generate_short_code rng p db =
      Some (candidate rng p m, p + SHORT_CODE_LENGTH * Suc m, ?db')"
    using coll free by (rule generate_first_free)
  have f': "select_by_code ?db' (candidate rng p m) = None"
    using free by (simp add: select_by_code_def)
  have f'': "candidate rng p m \<notin> set (map short_code (urls ?db'))"
    using select_None_iff[of ?db' "candidate rng p m"] f' by blast
  have f3: "fst (code_exists ?db' (candidate rng p m)) = False"
    using f' by (simp add: code_exists_def)
  have c': "\<forall>j<m. candidate rng p j \<in> set (map short_code (urls db)) \<and>
                  fst (code_exists db (candidate rng p j))"
    using coll by (simp add: code_exists_def select_None_iff)
  show ?thesis
    using g le f' f'' f3 c' candidate_format[OF assms(1), of p m] characters_alphabet by blast
qed

theorem generate_short_code_returns_free_code_witness:
  "(\<forall>i. by_pass i < length characters) \<and>
   candidate by_pass 0 0 = ''aaaaaa'' \<and> candidate by_pass 0 1 = ''bbbbbb'' \<and>
   ''aaaaaa'' \<in> set (map short_code (urls taken_db)) \<and>
   ''bbbbbb'' \<notin> set (map short_code (urls taken_db)) \<and>
   generate_short_code by_pass 0 taken_db = Some (''bbbbbb'', 12, taken_db\<lparr>statements := 2\<rparr>)"
proof -
  have h1: "\<forall>i. by_pass i < length characters"
    using characters_alphabet by (simp add: by_pass_def)
  have c0: "candidate by_pass 0 0 = ''aaaaaa''" by (rule candidate_by_pass_0)
  have c1: "candidate by_pass 0 1 = ''bbbbbb''" using candidate_by_pass_1 by simp
  have r: "''aaaaaa'' \<in> set (map short_code (urls taken_db))"
    "''bbbbbb'' \<notin> set (map short_code (urls taken_db))"
    by (simp_all add: taken_db_def)
  have h2: "candidate by_pass 0 1 \<notin> set (map short_code (urls taken_db))"
    using r c1 by simp
  from generate_short_code_returns_free_code[OF h1 h2]
  obtain code m where g: "generate_short_code by_pass 0 taken_db =
        Some (code, 0 + SHORT_CODE_LENGTH * Suc m, taken_db\<lparr>statements := statements taken_db + Suc m\<rparr>)"
    and free: "code \<notin> set (map short_code (urls (taken_db\<lparr>statements := statements taken_db + Suc m\<rparr>)))"
    and m: "m \<le> 1" "code = candidate by_pass 0 m"
    by blast
  have "m \<noteq> 0" using free m(2) c0 r(1) by auto
  then have "m = 1" using m(1) by simp
  then show ?thesis
    using g m(2) h1 c0 c1 r by (simp add: SHORT_CODE_LENGTH_def taken_db_def)
qed

section \<open>Properties of the routes\<close>

lemma redirect_url_cache_unchanged:
  "fst (snd (redirect_url past code ua ip ref (c, db))) = c"
  by (simp add: redirect_url_def split: option.splits sum.splits bool.splits)

lemma redirect_url_ignores_cache:
  "fst (redirect_url past code ua ip ref (c, db)) = fst (redirect_url past code ua ip ref (c', db))"
  by (simp add: redirect_url_def split: option.splits sum.splits bool.splits)

text \<open>
  Claim C4. \<open>get_url_info\<close> resolves its code through \<open>get_original_url\<close>, cache first;
  \<open>redirect_url\<close> does not. A redirect leaves the cache exactly as it was and its outcome
  does not depend on the cache. On a new cache and a store holding \<open>promo1\<close>: the redirect
  of \<open>promo1\<close> answers from the store and caches nothing, where the info request records a
  miss and caches the URL; the redirect of the unknown \<open>ghost\<close> answers 404 and leaves no
  negative marker, where the info request caches the sentinel.
\<close>

theorem redirect_url_never_consults_cache:
  "fst (snd (redirect_url past code ua ip ref (c, db))) = c \<and>
   fst (redirect_url past code ua ip ref (c, db)) = fst (redirect_url past code ua ip ref (c', db)) \<and>
   redirect_url never_past ''promo1'' None None None (URLCache 1000, promo_db) =
     (Inr ''https://example.com/'', URLCache 1000,
      record_click (executed promo_db) ''promo1'' None None None) \<and>
   fst (get_url_info ''promo1'' (URLCache 1000, promo_db)) = Inr ''https://example.com/'' \<and>
   peek (fst (snd (get_url_info ''promo1'' (URLCache 1000, promo_db)))) ''promo1'' =
     Some (Some ''https://example.com/'') \<and>
   misses (fst (snd (get_url_info ''promo1'' (URLCache 1000, promo_db)))) = 1 \<and>
   redirect_url never_past ''ghost'' None None None (URLCache 1000, promo_db) =
     (Inl (HTTPException 404), URLCache 1000, executed promo_db) \<and>
   fst (get_url_info ''ghost'' (URLCache 1000, promo_db)) = Inl (HTTPException 404) \<and>
   peek (fst (snd (get_url_info ''ghost'' (URLCache 1000, promo_db)))) ''ghost'' =
     Some (Some NOT_FOUND)"
proof -
  have a: "redirect_url never_past ''promo1'' None None None (URLCache 1000, promo_db) =
     (Inr ''https://example.com/'', URLCache 1000,
      record_click (executed promo_db) ''promo1'' None None None)"
    by (simp add: redirect_url_def select_by_code_def promo_db_def promo_row_def is_expired_def
          executed_def)
  have b: "fst (get_url_info ''promo1'' (URLCache 1000, promo_db)) = Inr ''https://example.com/''"
    "peek (fst (snd (get_url_info ''promo1'' (URLCache 1000, promo_db)))) ''promo1'' =
       Some (Some ''https://example.com/'')"
    "misses (fst (snd (get_url_info ''promo1'' (URLCache 1000, promo_db)))) = 1"
    by (simp_all add: get_url_info_def eval_defs ex_defs)
  have c: "redirect_url never_past ''ghost'' None None None (URLCache 1000, promo_db) =
     (Inl (HTTPException 404), URLCache 1000, executed promo_db)"
    by (simp add: redirect_url_def select_by_code_def promo_db_def promo_row_def)
  have d: "fst (get_url_info ''ghost'' (URLCache 1000, promo_db)) = Inl (HTTPException 404)"
    "peek (fst (snd (get_url_info ''ghost'' (URLCache 1000, promo_db)))) ''ghost'' =
       Some (Some NOT_FOUND)"
    by (simp_all add: get_url_info_def eval_defs ex_defs)
  show ?thesis
    using a b c d redirect_url_cache_unchanged[of past code ua ip ref c db]
      redirect_url_ignores_cache[of past code ua ip ref c db c']
    by simp
qed

end
